theory Spec2Isabelle
  imports Main "HOL-Library.Signed_Division"
begin

section \<open>Data model of the snake game\<close>

text \<open>
  \<^verbatim>\<open>struct Pos { int x, y; }\<close> with value equality on both fields, and
  \<^verbatim>\<open>enum class Dir { Up, Down, Left, Right }\<close>. Coordinates and the score are
  modelled as unbounded integers: in every state the loop reaches, the cells of the snake
  lie in the 30 x 20 grid, there are at most 601 of them and the score is at most 599
  (lemmas \<open>reachable_shape\<close> and \<open>reachable_length\<close> below), far from the limits of
  a C++ \<^verbatim>\<open>int\<close>.
\<close>

record Pos =
  x :: int
  y :: int

abbreviation cell :: "int \<Rightarrow> int \<Rightarrow> Pos" where
  "cell a b \<equiv> \<lparr>x = a, y = b\<rparr>"

datatype Dir = Up | Down | Left | Right

definition is_opposite :: "Dir \<Rightarrow> Dir \<Rightarrow> bool" where
  "is_opposite a b \<longleftrightarrow>
     (a = Up \<and> b = Down) \<or>
     (a = Down \<and> b = Up) \<or>
     (a = Left \<and> b = Right) \<or>
     (a = Right \<and> b = Left)"

fun next_head :: "Pos \<Rightarrow> Dir \<Rightarrow> Pos" where
  "next_head head Up = \<lparr>x = x head, y = y head - 1\<rparr>"
| "next_head head Down = \<lparr>x = x head, y = y head + 1\<rparr>"
| "next_head head Left = \<lparr>x = x head - 1, y = y head\<rparr>"
| "next_head head Right = \<lparr>x = x head + 1, y = y head\<rparr>"

text \<open>
  The deque of cells is a list, front (the head of the snake) first.
  \<^verbatim>\<open>contains\<close> scans it from the front and stops at the first equal cell.
\<close>

primrec contains :: "Pos list \<Rightarrow> Pos \<Rightarrow> bool" where
  "contains [] p = False"
| "contains (s # ss) p = (if s = p then True else contains ss p)"

text \<open>
  The variables of \<^verbatim>\<open>main\<close> that make up the game state, under their own names.
\<close>

record game =
  snake :: "Pos list"
  dir :: Dir
  pending :: Dir
  food :: Pos
  score :: int
  gameOver :: bool

definition W :: int where "W = 30"

definition H :: int where "H = 20"

section \<open>The random source\<close>

text \<open>
  \<^verbatim>\<open>std::mt19937\<close> and \<^verbatim>\<open>std::uniform_int_distribution<int>\<close> belong to the C++
  standard library, not to the program, so they are a parameter of the model: a value
  \<open>U a b g\<close> is the number that a distribution over \<open>[a, b]\<close> draws from the generator
  in state \<open>g\<close>, together with the state the generator is left in. The static generator
  of \<^verbatim>\<open>random_empty_cell\<close> is threaded through every function that reaches it.
\<close>

type_synonym 'g uniform_int = "int \<Rightarrow> int \<Rightarrow> 'g \<Rightarrow> int \<times> 'g"

text \<open>
  The search loop \<^verbatim>\<open>for (;;)\<close> has no exit but the \<^verbatim>\<open>return\<close>, so it is a partial
  function: \<open>None\<close> is a search that never returns. The braced initialiser evaluates
  \<^verbatim>\<open>dx(rng)\<close> before \<^verbatim>\<open>dy(rng)\<close>.
\<close>

partial_function (option) random_empty_cell ::
  "'g uniform_int \<Rightarrow> int \<Rightarrow> int \<Rightarrow> Pos list \<Rightarrow> 'g \<Rightarrow> (Pos \<times> 'g) option" where
  "random_empty_cell U w h sn g =
     (case U 0 (w - 1) g of (px, g1) \<Rightarrow>
      case U 0 (h - 1) g1 of (py, g2) \<Rightarrow>
        let p = \<lparr>x = px, y = py\<rparr>
        in if \<not> contains sn p then Some (p, g2) else random_empty_cell U w h sn g2)"

section \<open>Outcomes of a run\<close>

text \<open>
  A piece of the program either returns, or never returns (the search above), or has no
  defined behaviour (\<^verbatim>\<open>snake.front()\<close> on an empty deque).
\<close>

datatype 'a run = Returns 'a | Hangs | Undefined

fun bind_run :: "'a run \<Rightarrow> ('a \<Rightarrow> 'b run) \<Rightarrow> 'b run" where
  "bind_run (Returns v) f = f v"
| "bind_run Hangs f = Hangs"
| "bind_run Undefined f = Undefined"

text \<open>A call of \<^verbatim>\<open>random_empty_cell\<close> as a run: no result is a search that hangs.\<close>

definition search_cell ::
  "'g uniform_int \<Rightarrow> int \<Rightarrow> int \<Rightarrow> Pos list \<Rightarrow> 'g \<Rightarrow> (Pos \<times> 'g) run" where
  "search_cell U w h sn g =
     (case random_empty_cell U w h sn g of None \<Rightarrow> Hangs | Some r \<Rightarrow> Returns r)"

section \<open>Reset and tick\<close>

text \<open>
  \<^verbatim>\<open>reset_game\<close>: C++ \<^verbatim>\<open>/\<close> on \<^verbatim>\<open>int\<close> truncates towards zero, which is \<open>sdiv\<close>.
\<close>

definition reset_game ::
  "'g uniform_int \<Rightarrow> int \<Rightarrow> int \<Rightarrow> game \<times> 'g \<Rightarrow> (game \<times> 'g) run" where
  "reset_game U w h st =
     (case st of (s, g) \<Rightarrow>
        let sn = [];
            sn = \<lparr>x = w sdiv 2, y = h sdiv 2\<rparr> # sn;
            sn = sn @ [\<lparr>x = w sdiv 2 - 1, y = h sdiv 2\<rparr>];
            s = s\<lparr>snake := sn, dir := Right\<rparr>;
            s = s\<lparr>pending := dir s\<rparr>;
            s = s\<lparr>score := 0, gameOver := False\<rparr>
        in bind_run (search_cell U w h (snake s) g)
             (\<lambda>(p, g'). Returns (s\<lparr>food := p\<rparr>, g')))"

text \<open>
  The self-collision loop of \<^verbatim>\<open>main\<close>, \<^verbatim>\<open>for (size_t i = 1; i < snake.size(); ++i)\<close>,
  started at index \<open>i\<close>: true when it would set \<^verbatim>\<open>gameOver\<close>.
\<close>

function self_hit :: "nat \<Rightarrow> Pos list \<Rightarrow> Pos \<Rightarrow> bool" where
  "self_hit i sn nh =
     (if i < length sn then (if sn ! i = nh then True else self_hit (Suc i) sn nh)
      else False)"
  by pat_completeness auto
termination
  by (relation "measure (\<lambda>(i, sn, nh). length sn - i)") auto

declare self_hit.simps [simp del]

text \<open>
  The block under \<^verbatim>\<open>// update\<close> in \<^verbatim>\<open>main\<close>: one tick of the game.
\<close>

definition tick_update :: "'g uniform_int \<Rightarrow> game \<times> 'g \<Rightarrow> (game \<times> 'g) run" where
  "tick_update U st =
     (case st of (s, g) \<Rightarrow>
        if \<not> gameOver s then
          let s = (if \<not> is_opposite (dir s) (pending s) then s\<lparr>dir := pending s\<rparr> else s)
          in case snake s of
               [] \<Rightarrow> Undefined
             | front # _ \<Rightarrow>
                 let nh = next_head front (dir s)
                 in if x nh < 0 \<or> x nh \<ge> W \<or> y nh < 0 \<or> y nh \<ge> H
                    then Returns (s\<lparr>gameOver := True\<rparr>, g)
                    else
                      let s = s\<lparr>snake := nh # snake s\<rparr>;
                          ate = (nh = food s)
                      in bind_run
                           (if ate then
                              bind_run (search_cell U W H (snake s) g)
                                (\<lambda>(p, g'). Returns (s\<lparr>score := score s + 1, food := p\<rparr>, g'))
                            else Returns (s\<lparr>snake := butlast (snake s)\<rparr>, g))
                           (\<lambda>(s, g').
                              Returns (if self_hit 1 (snake s) nh
                                       then s\<lparr>gameOver := True\<rparr> else s, g'))
        else Returns (s, g))"

section \<open>The main loop\<close>

text \<open>
  What the keyboard delivers to one iteration of the loop: \<open>None\<close> when
  \<^verbatim>\<open>key_hit()\<close> is false, otherwise \<open>Some (k, k2)\<close> where \<open>k\<close> is what
  \<^verbatim>\<open>get_key()\<close> returns and \<open>k2\<close> what the second \<^verbatim>\<open>get_key()\<close> of the Windows build
  returns after the arrow-key prefix 224.
\<close>

type_synonym keys = "(int \<times> int) option"

definition arrow_keys :: "int \<Rightarrow> Dir \<Rightarrow> Dir" where
  "arrow_keys k2 p =
     (let p = (if k2 = 72 then Up else p);
          p = (if k2 = 80 then Down else p);
          p = (if k2 = 75 then Left else p);
          p = (if k2 = 77 then Right else p)
      in p)"

definition wasd_keys :: "int \<Rightarrow> Dir \<Rightarrow> Dir" where
  "wasd_keys k p =
     (let p = (if k = of_char CHR ''w'' \<or> k = of_char CHR ''W'' then Up else p);
          p = (if k = of_char CHR ''s'' \<or> k = of_char CHR ''S'' then Down else p);
          p = (if k = of_char CHR ''a'' \<or> k = of_char CHR ''A'' then Left else p);
          p = (if k = of_char CHR ''d'' \<or> k = of_char CHR ''D'' then Right else p)
      in p)"

definition quit_key :: "int \<Rightarrow> bool" where
  "quit_key k \<longleftrightarrow> k = of_char CHR ''q'' \<or> k = of_char CHR ''Q''"

definition restart_key :: "int \<Rightarrow> bool" where
  "restart_key k \<longleftrightarrow> k = of_char CHR ''r'' \<or> k = of_char CHR ''R''"

datatype 'a step = Break | Continue 'a

text \<open>
  One iteration of \<^verbatim>\<open>for (;;)\<close> in \<^verbatim>\<open>main\<close>, without the drawing and the sleep;
  \<open>win32\<close> says whether the build has \<^verbatim>\<open>_WIN32\<close> defined.
\<close>

definition loop_body ::
  "bool \<Rightarrow> 'g uniform_int \<Rightarrow> keys \<Rightarrow> game \<times> 'g \<Rightarrow> (game \<times> 'g) step run" where
  "loop_body win32 U inp st =
     (case st of (s, g) \<Rightarrow>
        case inp of
          None \<Rightarrow> map_run Continue (tick_update U (s, g))
        | Some (k, k2) \<Rightarrow>
            let s = (if win32 \<and> k = 224 then s\<lparr>pending := arrow_keys k2 (pending s)\<rparr> else s);
                s = s\<lparr>pending := wasd_keys k (pending s)\<rparr>
            in if quit_key k then Returns Break
               else
                 bind_run
                   (if gameOver s \<and> restart_key k then reset_game U W H (s, g)
                    else Returns (s, g))
                   (\<lambda>st'. map_run Continue (tick_update U st')))"

fun run_loop ::
  "bool \<Rightarrow> 'g uniform_int \<Rightarrow> keys list \<Rightarrow> game \<times> 'g \<Rightarrow> (game \<times> 'g) step run" where
  "run_loop win32 U [] st = Returns (Continue st)"
| "run_loop win32 U (inp # inps) st =
     bind_run (loop_body win32 U inp st)
       (\<lambda>r. case r of Break \<Rightarrow> Returns Break | Continue st' \<Rightarrow> run_loop win32 U inps st')"

text \<open>
  The variables of \<^verbatim>\<open>main\<close> as they are initialised, before the first
  \<^verbatim>\<open>reset_game\<close>, and the states the loop can be in at the top of an iteration.
\<close>

definition main_init :: game where
  "main_init =
     \<lparr>snake = [], dir = Right, pending = Right, food = \<lparr>x = 0, y = 0\<rparr>, score = 0,
      gameOver = False\<rparr>"

inductive reachable :: "bool \<Rightarrow> 'g uniform_int \<Rightarrow> game \<times> 'g \<Rightarrow> bool"
  for win32 :: bool and U :: "'g uniform_int" where
  start: "reset_game U W H (main_init, g) = Returns st \<Longrightarrow> reachable win32 U st"
| iterate: "reachable win32 U st \<Longrightarrow> loop_body win32 U inp st = Returns (Continue st')
             \<Longrightarrow> reachable win32 U st'"

section \<open>Vocabulary of the properties\<close>

definition in_grid :: "int \<Rightarrow> int \<Rightarrow> Pos \<Rightarrow> bool" where
  "in_grid w h p \<longleftrightarrow> 0 \<le> x p \<and> x p < w \<and> 0 \<le> y p \<and> y p < h"

text \<open>The direction a tick commits in its first statement.\<close>

definition committed :: "game \<Rightarrow> Dir" where
  "committed s = (if \<not> is_opposite (dir s) (pending s) then pending s else dir s)"

text \<open>
  One pass through the body of the search loop draws a cell; \<open>nth_draw U w h g n\<close> is the
  cell of the \<open>n\<close>-th pass (counted from 0) of a search started in generator state \<open>g\<close>,
  with the generator state after it.
\<close>

definition draw_cell :: "'g uniform_int \<Rightarrow> int \<Rightarrow> int \<Rightarrow> 'g \<Rightarrow> Pos \<times> 'g" where
  "draw_cell U w h g =
     (case U 0 (w - 1) g of (px, g1) \<Rightarrow>
      case U 0 (h - 1) g1 of (py, g2) \<Rightarrow> (\<lparr>x = px, y = py\<rparr>, g2))"

primrec gen_after :: "'g uniform_int \<Rightarrow> int \<Rightarrow> int \<Rightarrow> nat \<Rightarrow> 'g \<Rightarrow> 'g" where
  "gen_after U w h 0 g = g"
| "gen_after U w h (Suc n) g = gen_after U w h n (snd (draw_cell U w h g))"

definition nth_draw :: "'g uniform_int \<Rightarrow> int \<Rightarrow> int \<Rightarrow> 'g \<Rightarrow> nat \<Rightarrow> Pos \<times> 'g" where
  "nth_draw U w h g n = draw_cell U w h (gen_after U w h n g)"

text \<open>
  What the standard promises of a distribution over \<open>[a, b]\<close>: its values lie in the
  range. And what a uniform random source gives with probability one, stated for one
  sequence of draws: every cell of the grid keeps being drawn.
\<close>

definition uniform_ok :: "'g uniform_int \<Rightarrow> bool" where
  "uniform_ok U \<longleftrightarrow> (\<forall>a b g. a \<le> b \<longrightarrow> a \<le> fst (U a b g) \<and> fst (U a b g) \<le> b)"

definition fair :: "'g uniform_int \<Rightarrow> int \<Rightarrow> int \<Rightarrow> 'g \<Rightarrow> bool" where
  "fair U w h g \<longleftrightarrow>
     (\<forall>c. in_grid w h c \<longrightarrow> (\<forall>n. \<exists>m\<ge>n. fst (nth_draw U w h g m) = c))"

text \<open>
  A concrete source for running the model: its state counts the numbers drawn, and the
  \<open>k\<close>-th cell it yields on a grid \<open>m\<close> cells wide is \<open>(k mod m, k div m mod h)\<close>, so it
  sweeps the grid row by row, again and again.
\<close>

definition sweep_gen :: "nat \<Rightarrow> nat uniform_int" where
  "sweep_gen m a b n =
     (a + (if even n then int (n div 2) else int (n div 2 div m)) mod (b - a + 1), Suc n)"

text \<open>The cell a tick tries to move the head to, and the snake \<^verbatim>\<open>reset_game\<close> builds.\<close>

definition new_head :: "game \<Rightarrow> Pos" where
  "new_head s = next_head (hd (snake s)) (committed s)"

definition start_snake :: "int \<Rightarrow> int \<Rightarrow> Pos list" where
  "start_snake w h = [cell (w sdiv 2) (h sdiv 2), cell (w sdiv 2 - 1) (h sdiv 2)]"

text \<open>An input that cannot restart the game: no key, or a key other than r and R.\<close>

definition no_restart :: "keys \<Rightarrow> bool" where
  "no_restart inp \<longleftrightarrow> (case inp of None \<Rightarrow> True | Some (k, k2) \<Rightarrow> \<not> restart_key k)"

text \<open>A snake that occupies every cell of the grid.\<close>

definition covers_grid :: "int \<Rightarrow> int \<Rightarrow> Pos list \<Rightarrow> bool" where
  "covers_grid w h sn \<longleftrightarrow> (\<forall>c. in_grid w h c \<longrightarrow> contains sn c)"

text \<open>
  The shape every state of the loop has: at least two cells, all inside the grid, and a
  score that counts the cells eaten since the reset.
\<close>

definition shape_ok :: "game \<Rightarrow> bool" where
  "shape_ok s \<longleftrightarrow>
     2 \<le> length (snake s) \<and> (\<forall>c\<in>set (snake s). in_grid W H c) \<and>
     score s = int (length (snake s)) - 2"

text \<open>No cell twice behind the head, and none twice at all while the game runs.\<close>

definition no_overlap :: "game \<Rightarrow> bool" where
  "no_overlap s \<longleftrightarrow> distinct (tl (snake s)) \<and> (\<not> gameOver s \<longrightarrow> distinct (snake s))"

text \<open>
  Concrete states for running the model: the state a reset leaves with the food at \<open>p\<close>,
  a snake with its head in the last column, and a deque whose cell at index 2 lies right
  of the head.
\<close>

definition start_state :: "Pos \<Rightarrow> game" where
  "start_state p =
     \<lparr>snake = [cell 15 10, cell 14 10], dir = Right, pending = Right, food = p, score = 0,
      gameOver = False\<rparr>"

definition wall_state :: game where
  "wall_state =
     \<lparr>snake = [cell 29 5, cell 28 5], dir = Right, pending = Right, food = cell 0 0,
      score = 0, gameOver = False\<rparr>"

definition loop_state :: game where
  "loop_state =
     \<lparr>snake = [cell 5 5, cell 5 6, cell 6 5, cell 7 5], dir = Right, pending = Right,
      food = cell 0 0, score = 2, gameOver = False\<rparr>"

section \<open>Facts about the helpers\<close>

lemma contains_iff: "contains sn p \<longleftrightarrow> p \<in> set sn"
  by (induction sn) auto

lemma self_hit_iff: "self_hit i sn nh \<longleftrightarrow> nh \<in> set (drop i sn)"
proof (induction i sn nh rule: self_hit.induct)
  case (1 i sn nh)
  show ?case
  proof (cases "i < length sn")
    case True
    then have "drop i sn = sn ! i # drop (Suc i) sn"
      by (simp add: Cons_nth_drop_Suc)
    with True 1 show ?thesis
      by (subst self_hit.simps) auto
  next
    case False
    then show ?thesis
      by (subst self_hit.simps) simp
  qed
qed

lemma Pos_eq_cell: "p = cell a b \<longleftrightarrow> x p = a \<and> y p = b"
  by (cases p) auto

lemma sdiv_2_nonneg: "0 \<le> a \<Longrightarrow> a sdiv 2 = a div (2::int)"
  by (simp add: signed_divide_int_def sgn_if)

lemma outside_iff: "(x p < 0 \<or> x p \<ge> w \<or> y p < 0 \<or> y p \<ge> h) \<longleftrightarrow> \<not> in_grid w h p"
  by (auto simp: in_grid_def)

lemma commit_dir:
  "(if \<not> is_opposite (dir s) (pending s) then s\<lparr>dir := pending s\<rparr> else s) = s\<lparr>dir := committed s\<rparr>"
  by (simp add: committed_def)

lemma bind_run_Returns_iff:
  "bind_run r f = Returns v \<longleftrightarrow> (\<exists>u. r = Returns u \<and> f u = Returns v)"
  by (cases r) auto

lemma map_run_Returns_iff:
  "map_run f r = Returns v \<longleftrightarrow> (\<exists>u. r = Returns u \<and> v = f u)"
  by (cases r) auto

lemma search_cell_Returns_iff:
  "search_cell U w h sn g = Returns r \<longleftrightarrow> random_empty_cell U w h sn g = Some r"
  by (simp add: search_cell_def split: option.splits)

lemma in_tl_iff: "p \<in> set (tl sn) \<longleftrightarrow> (\<exists>i. 1 \<le> i \<and> i < length sn \<and> sn ! i = p)"
proof (cases sn)
  case Nil
  then show ?thesis by simp
next
  case (Cons c cs)
  have "p \<in> set cs \<longleftrightarrow> (\<exists>j<length cs. cs ! j = p)"
    by (simp add: in_set_conv_nth)
  also have "\<dots> \<longleftrightarrow> (\<exists>i. 1 \<le> i \<and> i < length (c # cs) \<and> (c # cs) ! i = p)"
  proof
    assume "\<exists>j<length cs. cs ! j = p"
    then obtain j where "j < length cs" "cs ! j = p" by blast
    then have "1 \<le> Suc j \<and> Suc j < length (c # cs) \<and> (c # cs) ! Suc j = p" by simp
    then show "\<exists>i. 1 \<le> i \<and> i < length (c # cs) \<and> (c # cs) ! i = p" by blast
  next
    assume "\<exists>i. 1 \<le> i \<and> i < length (c # cs) \<and> (c # cs) ! i = p"
    then obtain i where i: "1 \<le> i" "i < length (c # cs)" "(c # cs) ! i = p" by blast
    then obtain j where "i = Suc j" by (cases i) auto
    with i have "j < length cs \<and> cs ! j = p" by simp
    then show "\<exists>j<length cs. cs ! j = p" by blast
  qed
  finally show ?thesis using Cons by simp
qed

section \<open>The search loop and the sequence of draws\<close>

lemma random_empty_cell_unroll:
  "random_empty_cell U w h sn g =
     (case draw_cell U w h g of (p, g') \<Rightarrow>
        if \<not> contains sn p then Some (p, g') else random_empty_cell U w h sn g')"
  by (subst random_empty_cell.simps) (simp add: draw_cell_def split: prod.splits)

lemma nth_draw_0: "nth_draw U w h g 0 = draw_cell U w h g"
  by (simp add: nth_draw_def)

lemma nth_draw_Suc:
  "nth_draw U w h g (Suc n) = nth_draw U w h (snd (draw_cell U w h g)) n"
  by (simp add: nth_draw_def)

lemma random_empty_cell_first:
  "(\<forall>m<n. contains sn (fst (nth_draw U w h g m))) \<Longrightarrow>
   \<not> contains sn (fst (nth_draw U w h g n)) \<Longrightarrow>
   random_empty_cell U w h sn g = Some (nth_draw U w h g n)"
proof (induction n arbitrary: g)
  case 0
  then show ?case
    by (subst random_empty_cell_unroll) (auto simp: nth_draw_0 split: prod.splits)
next
  case (Suc n)
  obtain p g' where d: "draw_cell U w h g = (p, g')"
    by (cases "draw_cell U w h g")
  from Suc.prems(1) have "contains sn (fst (nth_draw U w h g 0))"
    by blast
  with d have occ: "contains sn p"
    by (simp add: nth_draw_0)
  have "\<forall>m<n. contains sn (fst (nth_draw U w h g' m))"
  proof (intro allI impI)
    fix m assume "m < n"
    then have "contains sn (fst (nth_draw U w h g (Suc m)))"
      using Suc.prems(1) by simp
    with d show "contains sn (fst (nth_draw U w h g' m))"
      by (simp add: nth_draw_Suc)
  qed
  moreover have "\<not> contains sn (fst (nth_draw U w h g' n))"
    using Suc.prems(2) d by (simp add: nth_draw_Suc)
  ultimately have "random_empty_cell U w h sn g' = Some (nth_draw U w h g' n)"
    by (rule Suc.IH)
  with occ d show ?case
    by (subst random_empty_cell_unroll) (simp add: nth_draw_Suc)
qed

text \<open>
  The converse needs the induction rule of the partial function: a search that returns
  has returned the first free cell among its draws.
\<close>

lemma random_empty_cell_Some:
  assumes "random_empty_cell U w h sn g = Some r"
  shows "\<exists>n. r = nth_draw U w h g n \<and> \<not> contains sn (fst r) \<and>
             (\<forall>m<n. contains sn (fst (nth_draw U w h g m)))"
proof (rule random_empty_cell.raw_induct
    [where P = "\<lambda>U w h sn g r. \<exists>n. r = nth_draw U w h g n \<and> \<not> contains sn (fst r) \<and>
             (\<forall>m<n. contains sn (fst (nth_draw U w h g m)))", OF _ assms])
  fix rec :: "'a uniform_int \<Rightarrow> int \<Rightarrow> int \<Rightarrow> Pos list \<Rightarrow> 'a \<Rightarrow> (Pos \<times> 'a) option"
  fix U w h sn g r
  assume IH: "\<And>U w h sn g r. rec U w h sn g = Some r \<Longrightarrow>
           \<exists>n. r = nth_draw U w h g n \<and> \<not> contains sn (fst r) \<and>
             (\<forall>m<n. contains sn (fst (nth_draw U w h g m)))"
  assume body: "(case U 0 (w - 1) g of (px, g1) \<Rightarrow>
      case U 0 (h - 1) g1 of (py, g2) \<Rightarrow>
        let p = \<lparr>x = px, y = py\<rparr>
        in if \<not> contains sn p then Some (p, g2) else rec U w h sn g2) = Some r"
  obtain p g' where d: "draw_cell U w h g = (p, g')"
    by (cases "draw_cell U w h g")
  show "\<exists>n. r = nth_draw U w h g n \<and> \<not> contains sn (fst r) \<and>
             (\<forall>m<n. contains sn (fst (nth_draw U w h g m)))"
  proof (cases "contains sn p")
    case False
    with body d have "r = (p, g')"
      by (auto simp: draw_cell_def split: prod.splits)
    with False d have "r = nth_draw U w h g 0 \<and> \<not> contains sn (fst r)"
      by (simp add: nth_draw_0)
    then show ?thesis by blast
  next
    case True
    with body d have "rec U w h sn g' = Some r"
      by (auto simp: draw_cell_def split: prod.splits)
    from IH [OF this] obtain n where n: "r = nth_draw U w h g' n"
      "\<not> contains sn (fst r)" "\<forall>m<n. contains sn (fst (nth_draw U w h g' m))"
      by blast
    have "\<forall>m<Suc n. contains sn (fst (nth_draw U w h g m))"
    proof (intro allI impI)
      fix m assume "m < Suc n"
      then show "contains sn (fst (nth_draw U w h g m))"
        using True d n(3) by (cases m) (simp_all add: nth_draw_0 nth_draw_Suc)
    qed
    moreover have "r = nth_draw U w h g (Suc n)"
      using n(1) d by (simp add: nth_draw_Suc)
    ultimately show ?thesis using n(2) by blast
  qed
qed

lemma random_empty_cell_None_iff:
  "random_empty_cell U w h sn g = None \<longleftrightarrow> (\<forall>n. contains sn (fst (nth_draw U w h g n)))"
proof
  assume none: "random_empty_cell U w h sn g = None"
  show "\<forall>n. contains sn (fst (nth_draw U w h g n))"
  proof (rule ccontr)
    assume "\<not> (\<forall>n. contains sn (fst (nth_draw U w h g n)))"
    then have ex: "\<exists>n. \<not> contains sn (fst (nth_draw U w h g n))" by blast
    define k where "k = (LEAST n. \<not> contains sn (fst (nth_draw U w h g n)))"
    have "\<not> contains sn (fst (nth_draw U w h g k))"
      unfolding k_def using ex by (rule LeastI_ex)
    moreover have "\<forall>m<k. contains sn (fst (nth_draw U w h g m))"
      unfolding k_def using not_less_Least by blast
    ultimately have "random_empty_cell U w h sn g = Some (nth_draw U w h g k)"
      by (simp add: random_empty_cell_first)
    with none show False by simp
  qed
next
  assume all: "\<forall>n. contains sn (fst (nth_draw U w h g n))"
  show "random_empty_cell U w h sn g = None"
  proof (cases "random_empty_cell U w h sn g")
    case (Some r)
    from random_empty_cell_Some [OF this] all show ?thesis by auto
  qed simp
qed

lemma random_empty_cell_free:
  "random_empty_cell U w h sn g = Some (p, g') \<Longrightarrow> \<not> contains sn p"
  using random_empty_cell_Some [of U w h sn g "(p, g')"] by auto

lemma random_empty_cell_least:
  assumes "\<exists>n. \<not> contains sn (fst (nth_draw U w h g n))"
  shows "\<exists>n. random_empty_cell U w h sn g = Some (nth_draw U w h g n) \<and>
             \<not> contains sn (fst (nth_draw U w h g n)) \<and>
             (\<forall>m<n. contains sn (fst (nth_draw U w h g m)))"
proof -
  define k where "k = (LEAST n. \<not> contains sn (fst (nth_draw U w h g n)))"
  have free: "\<not> contains sn (fst (nth_draw U w h g k))"
    unfolding k_def using assms by (rule LeastI_ex)
  have occ: "\<forall>m<k. contains sn (fst (nth_draw U w h g m))"
    unfolding k_def using not_less_Least by blast
  from occ free have "random_empty_cell U w h sn g = Some (nth_draw U w h g k)"
    by (rule random_empty_cell_first)
  with free occ show ?thesis by blast
qed

lemma draw_cell_in_grid:
  assumes "uniform_ok U" "0 < w" "0 < h"
  shows "in_grid w h (fst (draw_cell U w h g))"
proof -
  obtain px g1 where d1: "U 0 (w - 1) g = (px, g1)" by (cases "U 0 (w - 1) g")
  obtain py g2 where d2: "U 0 (h - 1) g1 = (py, g2)" by (cases "U 0 (h - 1) g1")
  from assms(2) have "(0::int) \<le> w - 1" by simp
  with assms(1) have "0 \<le> fst (U 0 (w - 1) g) \<and> fst (U 0 (w - 1) g) \<le> w - 1"
    unfolding uniform_ok_def by blast
  moreover from assms(3) have "(0::int) \<le> h - 1" by simp
  with assms(1) have "0 \<le> fst (U 0 (h - 1) g1) \<and> fst (U 0 (h - 1) g1) \<le> h - 1"
    unfolding uniform_ok_def by blast
  ultimately show ?thesis
    using d1 d2 by (simp add: draw_cell_def in_grid_def)
qed

lemma nth_draw_in_grid:
  "uniform_ok U \<Longrightarrow> 0 < w \<Longrightarrow> 0 < h \<Longrightarrow> in_grid w h (fst (nth_draw U w h g n))"
  unfolding nth_draw_def by (rule draw_cell_in_grid)

lemma fair_finds_free:
  assumes "fair U w h g" "in_grid w h c" "\<not> contains sn c"
  shows "\<exists>n. \<not> contains sn (fst (nth_draw U w h g n))"
proof -
  from assms(1,2) obtain m where "fst (nth_draw U w h g m) = c"
    unfolding fair_def by blast
  with assms(3) show ?thesis by auto
qed

lemma gen_after_Suc_right:
  "gen_after U w h (Suc n) g = snd (draw_cell U w h (gen_after U w h n g))"
  by (induction n arbitrary: g) simp_all

lemma gen_after_add:
  "gen_after U w h m (gen_after U w h k g) = gen_after U w h (k + m) g"
  by (induction k arbitrary: g) simp_all

lemma nth_draw_after:
  "nth_draw U w h (snd (nth_draw U w h g k)) m = nth_draw U w h g (Suc k + m)"
proof -
  have "snd (nth_draw U w h g k) = gen_after U w h (Suc k) g"
    by (simp only: nth_draw_def gen_after_Suc_right)
  then show ?thesis
    by (simp only: nth_draw_def gen_after_add)
qed

lemma fair_after_draws:
  assumes "fair U w h g"
  shows "fair U w h (snd (nth_draw U w h g k))"
  unfolding fair_def
proof (intro allI impI)
  fix c n
  assume "in_grid w h c"
  with assms obtain m where m: "Suc k + n \<le> m" "fst (nth_draw U w h g m) = c"
    unfolding fair_def by blast
  then have "m = Suc k + (m - Suc k)" by simp
  with m(2) have "fst (nth_draw U w h (snd (nth_draw U w h g k)) (m - Suc k)) = c"
    by (simp only: nth_draw_after)
  moreover from m(1) have "n \<le> m - Suc k" by simp
  ultimately show "\<exists>m\<ge>n. fst (nth_draw U w h (snd (nth_draw U w h g k)) m) = c"
    by blast
qed

lemma fair_after_search:
  assumes "fair U w h g" "random_empty_cell U w h sn g = Some (p, g')"
  shows "fair U w h g'"
proof -
  from random_empty_cell_Some [OF assms(2)] obtain n where "(p, g') = nth_draw U w h g n"
    by blast
  then have "g' = snd (nth_draw U w h g n)"
    by (metis snd_conv)
  with assms(1) show ?thesis
    by (simp add: fair_after_draws)
qed

section \<open>The four ways a tick can go\<close>

lemma tick_update_gameOver: "gameOver s \<Longrightarrow> tick_update U (s, g) = Returns (s, g)"
  by (simp add: tick_update_def)

lemma tick_update_empty:
  "\<not> gameOver s \<Longrightarrow> snake s = [] \<Longrightarrow> tick_update U (s, g) = Undefined"
  by (simp add: tick_update_def)

lemma tick_update_wall:
  assumes "\<not> gameOver s" "snake s \<noteq> []" "\<not> in_grid W H (new_head s)"
  shows "tick_update U (s, g) = Returns (s\<lparr>dir := committed s, gameOver := True\<rparr>, g)"
proof -
  obtain front rest where sn: "snake s = front # rest"
    using assms(2) by (cases "snake s") auto
  with assms(1,3) show ?thesis
    unfolding tick_update_def commit_dir outside_iff
    by (simp add: new_head_def Let_def)
qed

lemma tick_update_move:
  assumes "\<not> gameOver s" "snake s \<noteq> []" "in_grid W H (new_head s)" "new_head s \<noteq> food s"
  shows "tick_update U (s, g) =
           Returns (s\<lparr>dir := committed s, snake := new_head s # butlast (snake s),
                      gameOver := new_head s \<in> set (butlast (snake s))\<rparr>, g)"
proof -
  obtain front rest where sn: "snake s = front # rest"
    using assms(2) by (cases "snake s") auto
  with assms(1,3,4) show ?thesis
    unfolding tick_update_def commit_dir outside_iff
    by (simp add: new_head_def Let_def self_hit_iff)
qed

lemma tick_update_eat:
  assumes "\<not> gameOver s" "snake s \<noteq> []" "in_grid W H (new_head s)" "new_head s = food s"
  shows "tick_update U (s, g) =
           (case random_empty_cell U W H (new_head s # snake s) g of
              None \<Rightarrow> Hangs
            | Some (p, g') \<Rightarrow>
                Returns (s\<lparr>dir := committed s, snake := new_head s # snake s,
                           score := score s + 1, food := p,
                           gameOver := new_head s \<in> set (snake s)\<rparr>, g'))"
proof -
  obtain front rest where sn: "snake s = front # rest"
    using assms(2) by (cases "snake s") auto
  with assms(1,3,4) show ?thesis
    unfolding tick_update_def commit_dir outside_iff
    by (simp add: new_head_def Let_def self_hit_iff search_cell_def split: option.splits)
qed

lemma tick_update_Undefined_iff:
  "tick_update U (s, g) = Undefined \<longleftrightarrow> \<not> gameOver s \<and> snake s = []"
proof (cases "gameOver s \<or> snake s = []")
  case True
  then show ?thesis
    by (auto simp: tick_update_gameOver tick_update_empty)
next
  case False
  then have go: "\<not> gameOver s" and ne: "snake s \<noteq> []" by simp_all
  consider "\<not> in_grid W H (new_head s)"
    | "in_grid W H (new_head s)" "new_head s \<noteq> food s"
    | "in_grid W H (new_head s)" "new_head s = food s"
    by blast
  then show ?thesis
  proof cases
    case 1
    with go ne show ?thesis by (simp add: tick_update_wall)
  next
    case 2
    with go ne show ?thesis by (simp add: tick_update_move)
  next
    case 3
    with go ne show ?thesis by (simp add: tick_update_eat split: option.splits)
  qed
qed

lemma tick_update_Hangs_iff:
  "tick_update U (s, g) = Hangs \<longleftrightarrow>
     \<not> gameOver s \<and> snake s \<noteq> [] \<and> in_grid W H (new_head s) \<and> new_head s = food s \<and>
     random_empty_cell U W H (new_head s # snake s) g = None"
proof (cases "gameOver s \<or> snake s = []")
  case True
  then show ?thesis
    by (cases "gameOver s") (auto simp: tick_update_gameOver tick_update_empty)
next
  case False
  then have go: "\<not> gameOver s" and ne: "snake s \<noteq> []" by simp_all
  consider "\<not> in_grid W H (new_head s)"
    | "in_grid W H (new_head s)" "new_head s \<noteq> food s"
    | "in_grid W H (new_head s)" "new_head s = food s"
    by blast
  then show ?thesis
  proof cases
    case 1
    with go ne show ?thesis by (simp add: tick_update_wall)
  next
    case 2
    with go ne show ?thesis by (simp add: tick_update_move)
  next
    case 3
    with go ne show ?thesis by (simp add: tick_update_eat split: option.splits)
  qed
qed

lemma tick_update_Returns_nonempty:
  "\<not> gameOver s \<Longrightarrow> tick_update U (s, g) = Returns r \<Longrightarrow> snake s \<noteq> []"
  by (auto simp: tick_update_empty)

lemma tick_update_dir:
  assumes "\<not> gameOver s" "tick_update U (s, g) = Returns (s', g')"
  shows "dir s' = committed s"
proof -
  have ne: "snake s \<noteq> []"
    using assms by (rule tick_update_Returns_nonempty)
  consider "\<not> in_grid W H (new_head s)"
    | "in_grid W H (new_head s)" "new_head s \<noteq> food s"
    | "in_grid W H (new_head s)" "new_head s = food s"
    by blast
  then show ?thesis
  proof cases
    case 1
    with assms ne show ?thesis by (auto simp: tick_update_wall)
  next
    case 2
    with assms ne show ?thesis by (auto simp: tick_update_move)
  next
    case 3
    with assms ne show ?thesis by (auto simp: tick_update_eat split: option.splits)
  qed
qed

lemma tick_update_body:
  assumes "\<not> gameOver s" "in_grid W H (new_head s)" "tick_update U (s, g) = Returns (s', g')"
  shows "snake s' = new_head s # (if new_head s = food s then snake s else butlast (snake s)) \<and>
         (gameOver s' \<longleftrightarrow> new_head s \<in> set (tl (snake s')))"
proof -
  have ne: "snake s \<noteq> []"
    using assms(1,3) by (rule tick_update_Returns_nonempty)
  show ?thesis
  proof (cases "new_head s = food s")
    case True
    with assms ne show ?thesis by (auto simp: tick_update_eat split: option.splits)
  next
    case False
    with assms ne show ?thesis by (auto simp: tick_update_move)
  qed
qed

lemma tick_update_food_inv:
  assumes "tick_update U (s, g) = Returns (s', g')" "\<not> contains (snake s) (food s)"
  shows "\<not> contains (snake s') (food s')"
proof (cases "gameOver s")
  case True
  with assms show ?thesis by (simp add: tick_update_gameOver)
next
  case False
  from False assms(1) have ne: "snake s \<noteq> []"
    by (rule tick_update_Returns_nonempty)
  consider "\<not> in_grid W H (new_head s)"
    | "in_grid W H (new_head s)" "new_head s \<noteq> food s"
    | "in_grid W H (new_head s)" "new_head s = food s"
    by blast
  then show ?thesis
  proof cases
    case 1
    with assms False ne show ?thesis by (auto simp: tick_update_wall)
  next
    case 2
    with assms False ne show ?thesis
      by (auto simp: tick_update_move contains_iff dest: in_set_butlastD)
  next
    case 3
    with assms(1) False ne obtain p where
      p: "random_empty_cell U W H (new_head s # snake s) g = Some (p, g')"
      and s': "snake s' = new_head s # snake s" "food s' = p"
      by (auto simp: tick_update_eat split: option.splits)
    from random_empty_cell_free [OF p] s' show ?thesis by simp
  qed
qed

section \<open>Reset and the loop\<close>

lemma reset_game_Returns_iff:
  "reset_game U w h (s, g) = Returns (s', g') \<longleftrightarrow>
     (\<exists>p. random_empty_cell U w h (start_snake w h) g = Some (p, g') \<and>
          s' = s\<lparr>snake := start_snake w h, dir := Right, pending := Right, score := 0,
                 gameOver := False, food := p\<rparr>)"
  by (auto simp: reset_game_def start_snake_def Let_def bind_run_Returns_iff
      search_cell_Returns_iff)

lemma reset_game_Hangs_iff:
  "reset_game U w h (s, g) = Hangs \<longleftrightarrow> random_empty_cell U w h (start_snake w h) g = None"
  by (auto simp: reset_game_def start_snake_def Let_def search_cell_def split: option.splits)

lemma start_snake_pos:
  "0 < w \<Longrightarrow> 0 < h \<Longrightarrow>
   start_snake w h = [cell (w div 2) (h div 2), cell (w div 2 - 1) (h div 2)]"
  by (simp add: start_snake_def sdiv_2_nonneg)

lemma reset_game_fields:
  assumes "uniform_ok U" "0 < w" "0 < h" "reset_game U w h (s, g) = Returns (s', g')"
  shows "s' = s\<lparr>snake := [cell (w div 2) (h div 2), cell (w div 2 - 1) (h div 2)],
                dir := Right, pending := Right, score := 0, gameOver := False,
                food := food s'\<rparr> \<and>
         in_grid w h (food s') \<and> \<not> contains (snake s') (food s')"
proof -
  from assms(4) obtain p where
    p: "random_empty_cell U w h (start_snake w h) g = Some (p, g')"
    and s': "s' = s\<lparr>snake := start_snake w h, dir := Right, pending := Right, score := 0,
                     gameOver := False, food := p\<rparr>"
    unfolding reset_game_Returns_iff by blast
  from random_empty_cell_Some [OF p] obtain n where n: "(p, g') = nth_draw U w h g n"
    and free: "\<not> contains (start_snake w h) p"
    by auto
  from n have "p = fst (nth_draw U w h g n)" by (metis fst_conv)
  with nth_draw_in_grid [OF assms(1-3), of g n] have "in_grid w h p" by simp
  with free s' show ?thesis
    by (simp add: start_snake_pos [OF assms(2,3)])
qed

lemma reset_at_W_H:
  assumes "reset_game U W H (s0, g0) = Returns (s1, g1)"
  shows "s1 = s0\<lparr>snake := [cell 15 10, cell 14 10], dir := Right, pending := Right,
                 score := 0, gameOver := False, food := food s1\<rparr>"
  using assms
  by (auto simp: reset_game_Returns_iff start_snake_def W_def H_def signed_divide_int_def)

lemma loop_body_Continue:
  assumes "loop_body win32 U inp (s, g) = Returns (Continue st')"
  shows "\<exists>p. tick_update U (s\<lparr>pending := p\<rparr>, g) = Returns st' \<or>
             (\<exists>st1. reset_game U W H (s\<lparr>pending := p\<rparr>, g) = Returns st1 \<and>
                    tick_update U st1 = Returns st')"
proof (cases inp)
  case None
  with assms have "tick_update U (s\<lparr>pending := pending s\<rparr>, g) = Returns st'"
    by (auto simp: loop_body_def map_run_Returns_iff)
  then show ?thesis by blast
next
  case (Some kk)
  obtain k k2 where kk: "kk = (k, k2)" by (cases kk)
  define p where
    "p = wasd_keys k (if win32 \<and> k = 224 then arrow_keys k2 (pending s) else pending s)"
  have upd: "(if win32 \<and> k = 224 then s\<lparr>pending := arrow_keys k2 (pending s)\<rparr> else s)
               \<lparr>pending := wasd_keys k (pending
                  (if win32 \<and> k = 224 then s\<lparr>pending := arrow_keys k2 (pending s)\<rparr> else s))\<rparr>
             = s\<lparr>pending := p\<rparr>"
    by (simp add: p_def)
  from assms Some kk show ?thesis
    unfolding loop_body_def Let_def prod.case option.case upd
    by (auto simp: bind_run_Returns_iff map_run_Returns_iff split: if_splits)
qed

lemma loop_body_frozen:
  assumes "gameOver s" "no_restart inp"
  shows "loop_body win32 U inp (s, g) = Returns Break \<or>
         (\<exists>p. loop_body win32 U inp (s, g) = Returns (Continue (s\<lparr>pending := p\<rparr>, g)))"
proof (cases inp)
  case None
  with assms have "loop_body win32 U inp (s, g) = Returns (Continue (s\<lparr>pending := pending s\<rparr>, g))"
    by (simp add: loop_body_def tick_update_gameOver)
  then show ?thesis by blast
next
  case (Some kk)
  obtain k k2 where kk: "kk = (k, k2)" by (cases kk)
  define p where
    "p = wasd_keys k (if win32 \<and> k = 224 then arrow_keys k2 (pending s) else pending s)"
  from assms Some kk have nr: "\<not> restart_key k"
    by (simp add: no_restart_def)
  have "loop_body win32 U inp (s, g) =
          (if quit_key k then Returns Break else Returns (Continue (s\<lparr>pending := p\<rparr>, g)))"
    using assms(1) nr Some kk
    by (auto simp: loop_body_def Let_def tick_update_gameOver p_def)
  then show ?thesis by (cases "quit_key k") auto
qed

lemma run_loop_frozen:
  "gameOver s \<Longrightarrow> \<forall>inp\<in>set inps. no_restart inp \<Longrightarrow>
   run_loop win32 U inps (s, g) = Returns Break \<or>
   (\<exists>p. run_loop win32 U inps (s, g) = Returns (Continue (s\<lparr>pending := p\<rparr>, g)))"
proof (induction inps arbitrary: s)
  case Nil
  have "run_loop win32 U [] (s, g) = Returns (Continue (s\<lparr>pending := pending s\<rparr>, g))"
    by simp
  then show ?case by blast
next
  case (Cons inp inps)
  from Cons.prems have "no_restart inp" by simp
  from loop_body_frozen [OF Cons.prems(1) this, of win32 U g] show ?case
  proof
    assume "loop_body win32 U inp (s, g) = Returns Break"
    then show ?thesis by simp
  next
    assume "\<exists>p. loop_body win32 U inp (s, g) = Returns (Continue (s\<lparr>pending := p\<rparr>, g))"
    then obtain p where p: "loop_body win32 U inp (s, g) = Returns (Continue (s\<lparr>pending := p\<rparr>, g))"
      ..
    have "gameOver (s\<lparr>pending := p\<rparr>)" using Cons.prems(1) by simp
    moreover have "\<forall>i\<in>set inps. no_restart i" using Cons.prems(2) by simp
    ultimately have "run_loop win32 U inps (s\<lparr>pending := p\<rparr>, g) = Returns Break \<or>
      (\<exists>q. run_loop win32 U inps (s\<lparr>pending := p\<rparr>, g) =
              Returns (Continue (s\<lparr>pending := p, pending := q\<rparr>, g)))"
      by (rule Cons.IH)
    with p show ?thesis by auto
  qed
qed

lemma reachable_food_free: "reachable win32 U st \<Longrightarrow> \<not> contains (snake (fst st)) (food (fst st))"
proof (induction rule: reachable.induct)
  case (start g st)
  obtain s' g' where st: "st = (s', g')" by (cases st)
  from start show ?case
    unfolding st by (auto simp: reset_game_Returns_iff dest: random_empty_cell_free)
next
  case (iterate st inp st')
  obtain s g where st: "st = (s, g)" by (cases st)
  obtain s' g' where st': "st' = (s', g')" by (cases st')
  from loop_body_Continue [OF iterate.hyps(2) [unfolded st]] obtain p where
    p: "tick_update U (s\<lparr>pending := p\<rparr>, g) = Returns st' \<or>
        (\<exists>st1. reset_game U W H (s\<lparr>pending := p\<rparr>, g) = Returns st1 \<and>
               tick_update U st1 = Returns st')" ..
  then show ?case
  proof
    assume "tick_update U (s\<lparr>pending := p\<rparr>, g) = Returns st'"
    then show ?thesis
      unfolding st' using iterate.IH st by (auto dest: tick_update_food_inv)
  next
    assume "\<exists>st1. reset_game U W H (s\<lparr>pending := p\<rparr>, g) = Returns st1 \<and>
               tick_update U st1 = Returns st'"
    then obtain s1 g1 where r: "reset_game U W H (s\<lparr>pending := p\<rparr>, g) = Returns (s1, g1)"
      and t: "tick_update U (s1, g1) = Returns (s', g')"
      unfolding st' by auto
    from r have "\<not> contains (snake s1) (food s1)"
      by (auto simp: reset_game_Returns_iff dest: random_empty_cell_free)
    with t show ?thesis
      unfolding st' by (auto dest: tick_update_food_inv)
  qed
qed

lemma tick_update_shape:
  assumes "tick_update U (s, g) = Returns (s', g')" "shape_ok s"
  shows "shape_ok s'"
proof (cases "gameOver s")
  case True
  with assms show ?thesis by (simp add: tick_update_gameOver)
next
  case False
  from assms(2) have ne: "snake s \<noteq> []"
    by (auto simp: shape_ok_def)
  consider "\<not> in_grid W H (new_head s)"
    | "in_grid W H (new_head s)" "new_head s \<noteq> food s"
    | "in_grid W H (new_head s)" "new_head s = food s"
    by blast
  then show ?thesis
  proof cases
    case 1
    with assms False ne show ?thesis
      by (auto simp: tick_update_wall shape_ok_def)
  next
    case 2
    with assms False ne show ?thesis
      by (auto simp: tick_update_move shape_ok_def dest!: in_set_butlastD)
  next
    case 3
    with assms False ne show ?thesis
      by (auto simp: tick_update_eat shape_ok_def split: option.splits)
  qed
qed

lemma reset_game_shape: "reset_game U W H (s, g) = Returns (s', g') \<Longrightarrow> shape_ok s'"
  by (auto simp: reset_game_Returns_iff shape_ok_def start_snake_def W_def H_def
      signed_divide_int_def in_grid_def)

lemma shape_ok_pending [simp]: "shape_ok (s\<lparr>pending := p\<rparr>) = shape_ok s"
  by (simp add: shape_ok_def)

lemma reachable_shape: "reachable win32 U st \<Longrightarrow> shape_ok (fst st)"
proof (induction rule: reachable.induct)
  case (start g st)
  then show ?case by (cases st) (auto dest: reset_game_shape)
next
  case (iterate st inp st')
  obtain s g where st: "st = (s, g)" by (cases st)
  obtain s' g' where st': "st' = (s', g')" by (cases st')
  from loop_body_Continue [OF iterate.hyps(2) [unfolded st]] obtain p where
    "tick_update U (s\<lparr>pending := p\<rparr>, g) = Returns st' \<or>
        (\<exists>st1. reset_game U W H (s\<lparr>pending := p\<rparr>, g) = Returns st1 \<and>
               tick_update U st1 = Returns st')" ..
  then show ?case
  proof
    assume "tick_update U (s\<lparr>pending := p\<rparr>, g) = Returns st'"
    then show ?thesis
      unfolding st' using iterate.IH st by (auto dest: tick_update_shape)
  next
    assume "\<exists>st1. reset_game U W H (s\<lparr>pending := p\<rparr>, g) = Returns st1 \<and>
               tick_update U st1 = Returns st'"
    then obtain s1 g1 where "reset_game U W H (s\<lparr>pending := p\<rparr>, g) = Returns (s1, g1)"
      and "tick_update U (s1, g1) = Returns (s', g')"
      unfolding st' by auto
    then show ?thesis
      unfolding st' by (auto dest: reset_game_shape tick_update_shape)
  qed
qed

lemma tick_update_no_overlap:
  assumes "tick_update U (s, g) = Returns (s', g')" "no_overlap s"
  shows "no_overlap s'"
proof (cases "gameOver s")
  case True
  with assms show ?thesis by (simp add: tick_update_gameOver)
next
  case False
  from False assms(1) have ne: "snake s \<noteq> []"
    by (rule tick_update_Returns_nonempty)
  from False assms(2) have d: "distinct (snake s)"
    by (simp add: no_overlap_def)
  then have db: "distinct (butlast (snake s))"
    by (rule distinct_butlast)
  consider "\<not> in_grid W H (new_head s)"
    | "in_grid W H (new_head s)" "new_head s \<noteq> food s"
    | "in_grid W H (new_head s)" "new_head s = food s"
    by blast
  then show ?thesis
  proof cases
    case 1
    with assms False ne show ?thesis
      by (auto simp: tick_update_wall no_overlap_def)
  next
    case 2
    with assms(1) False ne db show ?thesis
      by (auto simp: tick_update_move no_overlap_def)
  next
    case 3
    with assms(1) False ne d show ?thesis
      by (auto simp: tick_update_eat no_overlap_def split: option.splits)
  qed
qed

lemma reset_game_no_overlap: "reset_game U w h (s, g) = Returns (s', g') \<Longrightarrow> no_overlap s'"
  by (auto simp: reset_game_Returns_iff no_overlap_def start_snake_def)

lemma no_overlap_pending [simp]: "no_overlap (s\<lparr>pending := p\<rparr>) = no_overlap s"
  by (simp add: no_overlap_def)

lemma reachable_no_overlap: "reachable win32 U st \<Longrightarrow> no_overlap (fst st)"
proof (induction rule: reachable.induct)
  case (start g st)
  then show ?case by (cases st) (auto dest: reset_game_no_overlap)
next
  case (iterate st inp st')
  obtain s g where st: "st = (s, g)" by (cases st)
  obtain s' g' where st': "st' = (s', g')" by (cases st')
  from loop_body_Continue [OF iterate.hyps(2) [unfolded st]] obtain p where
    "tick_update U (s\<lparr>pending := p\<rparr>, g) = Returns st' \<or>
        (\<exists>st1. reset_game U W H (s\<lparr>pending := p\<rparr>, g) = Returns st1 \<and>
               tick_update U st1 = Returns st')" ..
  then show ?case
  proof
    assume "tick_update U (s\<lparr>pending := p\<rparr>, g) = Returns st'"
    then show ?thesis
      unfolding st' using iterate.IH st by (auto dest: tick_update_no_overlap)
  next
    assume "\<exists>st1. reset_game U W H (s\<lparr>pending := p\<rparr>, g) = Returns st1 \<and>
               tick_update U st1 = Returns st'"
    then obtain s1 g1 where "reset_game U W H (s\<lparr>pending := p\<rparr>, g) = Returns (s1, g1)"
      and "tick_update U (s1, g1) = Returns (s', g')"
      unfolding st' by auto
    then show ?thesis
      unfolding st' by (auto dest: reset_game_no_overlap tick_update_no_overlap)
  qed
qed

lemma grid_cells: "{c. in_grid W H c} = (\<lambda>(a, b). cell a b) ` ({0..<30} \<times> {0..<20})"
proof (intro set_eqI iffI)
  fix c assume "c \<in> {c. in_grid W H c}"
  then have "(x c, y c) \<in> {0..<30} \<times> {0..<20}"
    by (simp add: in_grid_def W_def H_def)
  moreover have "c = (\<lambda>(a, b). cell a b) (x c, y c)"
    by (simp add: Pos_eq_cell)
  ultimately show "c \<in> (\<lambda>(a, b). cell a b) ` ({0..<30} \<times> {0..<20})"
    by (rule rev_image_eqI)
next
  fix c assume "c \<in> (\<lambda>(a, b). cell a b) ` ({0..<30} \<times> {0..<20})"
  then show "c \<in> {c. in_grid W H c}"
    by (auto simp: in_grid_def W_def H_def)
qed

lemma card_grid: "finite {c. in_grid W H c} \<and> card {c. in_grid W H c} = 600"
proof -
  have inj: "inj_on (\<lambda>(a, b). cell a b) ({0..<30} \<times> {0..<20})"
    by (auto simp: inj_on_def)
  have "card ((\<lambda>(a, b). cell a b) ` ({0..<30::int} \<times> {0..<20::int})) =
          card ({0..<30::int} \<times> {0..<20::int})"
    using inj by (rule card_image)
  then show ?thesis
    by (simp add: grid_cells)
qed

text \<open>
  So the numbers of the program stay small: at most 601 cells, each inside the grid, and
  a score between 0 and 599.
\<close>

lemma reachable_length:
  assumes "reachable win32 U (s, g)"
  shows "length (snake s) \<le> 601 \<and> 0 \<le> score s \<and> score s \<le> 599"
proof -
  from reachable_shape [OF assms] have sh: "shape_ok s" by simp
  from reachable_no_overlap [OF assms] have d: "distinct (tl (snake s))"
    by (simp add: no_overlap_def)
  have "set (tl (snake s)) \<subseteq> {c. in_grid W H c}"
    using sh by (auto simp: shape_ok_def dest: list.set_sel(2) [rotated])
  then have "card (set (tl (snake s))) \<le> 600"
    using card_grid by (metis card_mono)
  with d have "length (tl (snake s)) \<le> 600"
    by (simp add: distinct_card)
  then have "length (snake s) \<le> 601" by simp
  with sh show ?thesis by (simp add: shape_ok_def)
qed

section \<open>The concrete source and concrete runs\<close>

lemma sweep_gen_uniform_ok: "uniform_ok (sweep_gen m)"
  unfolding uniform_ok_def
proof (intro allI impI)
  fix a b :: int and g :: nat
  assume "a \<le> b"
  then have pos: "0 < b - a + 1" by simp
  define v where "v = (if even g then int (g div 2) else int (g div 2 div m))"
  have "0 \<le> v mod (b - a + 1)" using pos by (rule pos_mod_sign)
  moreover have "v mod (b - a + 1) < b - a + 1" using pos by (rule pos_mod_bound)
  ultimately show "a \<le> fst (sweep_gen m a b g) \<and> fst (sweep_gen m a b g) \<le> b"
    by (simp add: sweep_gen_def v_def [symmetric])
qed

lemma sweep_draw_cell:
  "even g \<Longrightarrow>
   draw_cell (sweep_gen m) w h g = (cell (int (g div 2) mod w) (int (g div 2 div m) mod h), g + 2)"
  by (simp add: draw_cell_def sweep_gen_def)

lemma sweep_gen_after: "even g \<Longrightarrow> gen_after (sweep_gen m) w h n g = g + 2 * n"
  by (induction n arbitrary: g) (simp_all add: sweep_draw_cell)

lemma sweep_nth_draw:
  "nth_draw (sweep_gen m) w h 0 n = (cell (int n mod w) (int (n div m) mod h), 2 * n + 2)"
  by (simp add: nth_draw_def sweep_gen_after sweep_draw_cell)

lemma sweep_gen_fair: "fair (sweep_gen 30) 30 20 0"
  unfolding fair_def
proof (intro allI impI)
  fix c :: Pos and n :: nat
  assume "in_grid 30 20 c"
  then have c: "0 \<le> x c" "x c < 30" "0 \<le> y c" "y c < 20"
    by (simp_all add: in_grid_def)
  define a where "a = nat (x c)"
  define b where "b = nat (y c)"
  define k where "k = a + 30 * (b + 20 * n)"
  have ab: "a < 30" "b < 20" "int a = x c" "int b = y c"
    using c by (simp_all add: a_def b_def)
  have "n \<le> k" by (simp add: k_def)
  have "k mod 30 = a mod 30"
    unfolding k_def by (rule mod_mult_self2)
  then have km: "k mod 30 = a" using ab by simp
  have "k div 30 = (b + 20 * n) + a div 30"
    unfolding k_def by (rule div_mult_self2) simp
  then have kd: "k div 30 = b + 20 * n" using ab by simp
  have "(b + 20 * n) mod 20 = b mod 20"
    by (rule mod_mult_self2)
  then have kdm: "k div 30 mod 20 = b" using kd ab by simp
  have "int k mod 30 = int (k mod 30)" by (simp add: zmod_int)
  then have x: "int k mod 30 = x c" using km ab by simp
  have "int (k div 30) mod 20 = int (k div 30 mod 20)" by (simp add: zmod_int)
  then have y: "int (k div 30) mod 20 = y c" using kdm ab by simp
  have "fst (nth_draw (sweep_gen 30) 30 20 0 k) = c"
    unfolding sweep_nth_draw fst_conv using x y by (simp add: eq_commute [of _ c] Pos_eq_cell)
  with \<open>n \<le> k\<close> show "\<exists>k\<ge>n. fst (nth_draw (sweep_gen 30) 30 20 0 k) = c" by blast
qed

lemmas run_simps =
  tick_update_def start_state_def is_opposite_def committed_def new_head_def in_grid_def
  W_def H_def Let_def self_hit_iff search_cell_def

lemma sweep_first_free:
  "\<not> contains sn (cell 0 0) \<Longrightarrow> random_empty_cell (sweep_gen 30) 30 20 sn 0 = Some (cell 0 0, 2)"
  by (subst random_empty_cell.simps) (simp add: sweep_gen_def)

lemma sweep_search_third:
  "random_empty_cell (sweep_gen 30) 30 20 [cell 0 0, cell 1 0] 0 = Some (cell 2 0, 6)"
  by (simp add: random_empty_cell.simps sweep_gen_def)

lemma reset_main_init:
  "reset_game (sweep_gen 30) W H (main_init, 0) = Returns (start_state (cell 0 0), 2)"
  unfolding reset_game_Returns_iff
  by (simp add: start_snake_def W_def H_def signed_divide_int_def sweep_first_free
      main_init_def start_state_def)

lemma reset_again:
  "reset_game (sweep_gen 30) W H (start_state (cell 0 0), 2) = Returns (start_state (cell 1 0), 4)"
  unfolding reset_game_Returns_iff
  by (subst random_empty_cell.simps)
     (simp add: start_snake_def W_def H_def signed_divide_int_def sweep_gen_def start_state_def)

lemma tick_start_state:
  "tick_update (sweep_gen 30) (start_state (cell 0 0), 2) =
     Returns ((start_state (cell 0 0))\<lparr>snake := [cell 16 10, cell 15 10]\<rparr>, 2)"
  by (simp add: run_simps)

lemma tick_eating_state:
  "tick_update (sweep_gen 30) (start_state (cell 16 10), 0) =
     Returns ((start_state (cell 16 10))\<lparr>snake := [cell 16 10, cell 15 10, cell 14 10],
                score := 1, food := cell 0 0\<rparr>, 2)"
  by (simp add: run_simps sweep_first_free)

lemma full_2_1: "covers_grid 2 1 [cell 0 0, cell 1 0]"
  unfolding covers_grid_def
proof (intro allI impI)
  fix c
  assume "in_grid 2 1 c"
  then have "(x c = 0 \<or> x c = 1) \<and> y c = 0"
    by (auto simp: in_grid_def)
  then have "c = cell 0 0 \<or> c = cell 1 0"
    by (auto simp: Pos_eq_cell)
  then show "contains [cell 0 0, cell 1 0] c" by auto
qed

lemma free_30_20: "\<not> covers_grid 30 20 [cell 0 0, cell 1 0]"
proof
  assume "covers_grid 30 20 [cell 0 0, cell 1 0]"
  then have "in_grid 30 20 (cell 2 0) \<longrightarrow> contains [cell 0 0, cell 1 0] (cell 2 0)"
    unfolding covers_grid_def by (rule spec)
  then show False by (simp add: in_grid_def)
qed

section \<open>The properties of the specification\<close>

text \<open>
  C1. A tick that starts with the game not over and returns leaves the current direction
  equal to the pending direction of before the tick when the two are not opposite, and
  leaves it as it was when they are opposite.
\<close>

theorem tick_commits_pending:
  assumes "\<not> gameOver s" and "tick_update U (s, g) = Returns (s', g')"
  shows "(\<not> is_opposite (dir s) (pending s) \<longrightarrow> dir s' = pending s) \<and>
         (is_opposite (dir s) (pending s) \<longrightarrow> dir s' = dir s)"
  using tick_update_dir [OF assms] by (simp add: committed_def)

theorem tick_commits_pending_witness:
  "\<not> gameOver ((start_state (cell 0 0))\<lparr>pending := Up\<rparr>) \<and>
   tick_update (sweep_gen 30) ((start_state (cell 0 0))\<lparr>pending := Up\<rparr>, 0) =
     Returns ((start_state (cell 0 0))\<lparr>pending := Up, dir := Up,
                snake := [cell 15 9, cell 15 10]\<rparr>, 0) \<and>
   \<not> is_opposite Right Up \<and>
   dir ((start_state (cell 0 0))\<lparr>pending := Up, dir := Up, snake := [cell 15 9, cell 15 10]\<rparr>)
     = Up \<and>
   \<not> gameOver ((start_state (cell 0 0))\<lparr>pending := Left\<rparr>) \<and>
   tick_update (sweep_gen 30) ((start_state (cell 0 0))\<lparr>pending := Left\<rparr>, 0) =
     Returns ((start_state (cell 0 0))\<lparr>pending := Left,
                snake := [cell 16 10, cell 15 10]\<rparr>, 0) \<and>
   is_opposite Right Left \<and>
   dir ((start_state (cell 0 0))\<lparr>pending := Left, snake := [cell 16 10, cell 15 10]\<rparr>) = Right"
proof -
  let ?a = "(start_state (cell 0 0))\<lparr>pending := Up\<rparr>"
  let ?b = "(start_state (cell 0 0))\<lparr>pending := Left\<rparr>"
  have a1: "\<not> gameOver ?a" and b1: "\<not> gameOver ?b"
    by (simp_all add: start_state_def)
  have a2: "tick_update (sweep_gen 30) (?a, 0) =
     Returns ((start_state (cell 0 0))\<lparr>pending := Up, dir := Up,
                snake := [cell 15 9, cell 15 10]\<rparr>, 0)"
    by (simp add: run_simps)
  have b2: "tick_update (sweep_gen 30) (?b, 0) =
     Returns ((start_state (cell 0 0))\<lparr>pending := Left,
                snake := [cell 16 10, cell 15 10]\<rparr>, 0)"
    by (simp add: run_simps)
  from tick_commits_pending [OF a1 a2] tick_commits_pending [OF b1 b2] a1 a2 b1 b2
  show ?thesis
    by (simp add: start_state_def is_opposite_def)
qed

text \<open>
  C2. When the game is not over and the new head lies outside \<open>[0,W) \<times> [0,H)\<close>, the tick
  sets the game-over flag and changes nothing else but the direction it committed: snake,
  food, score, pending direction and generator are as before. In particular a head in
  column \<open>W - 1\<close> that moves right ends the game on that tick.
\<close>

theorem wall_collision:
  assumes "\<not> gameOver s" and "snake s \<noteq> []"
  shows "(\<not> in_grid W H (new_head s) \<longrightarrow>
            tick_update U (s, g) = Returns (s\<lparr>dir := committed s, gameOver := True\<rparr>, g)) \<and>
         (x (hd (snake s)) = W - 1 \<and> committed s = Right \<longrightarrow>
            tick_update U (s, g) = Returns (s\<lparr>dir := Right, gameOver := True\<rparr>, g))"
proof (intro conjI impI)
  assume "\<not> in_grid W H (new_head s)"
  with assms show "tick_update U (s, g) = Returns (s\<lparr>dir := committed s, gameOver := True\<rparr>, g)"
    by (rule tick_update_wall)
next
  assume a: "x (hd (snake s)) = W - 1 \<and> committed s = Right"
  then have "\<not> in_grid W H (new_head s)"
    by (simp add: new_head_def in_grid_def)
  with assms have "tick_update U (s, g) = Returns (s\<lparr>dir := committed s, gameOver := True\<rparr>, g)"
    by (rule tick_update_wall)
  with a show "tick_update U (s, g) = Returns (s\<lparr>dir := Right, gameOver := True\<rparr>, g)"
    by simp
qed

theorem wall_collision_witness:
  "\<not> gameOver wall_state \<and> snake wall_state \<noteq> [] \<and> \<not> in_grid W H (new_head wall_state) \<and>
   x (hd (snake wall_state)) = W - 1 \<and> committed wall_state = Right \<and>
   tick_update (sweep_gen 30) (wall_state, 0) = Returns (wall_state\<lparr>gameOver := True\<rparr>, 0)"
proof -
  have h: "\<not> gameOver wall_state" "snake wall_state \<noteq> []"
    "\<not> in_grid W H (new_head wall_state)"
    "x (hd (snake wall_state)) = W - 1" "committed wall_state = Right"
    by (simp_all add: wall_state_def run_simps)
  from wall_collision [OF h(1,2), of "sweep_gen 30" 0] h(3)
  have "tick_update (sweep_gen 30) (wall_state, 0) =
          Returns (wall_state\<lparr>dir := committed wall_state, gameOver := True\<rparr>, 0)"
    by blast
  also have "wall_state\<lparr>dir := committed wall_state, gameOver := True\<rparr> =
             wall_state\<lparr>gameOver := True\<rparr>"
    by (simp add: h(5)) (simp add: wall_state_def)
  finally show ?thesis using h by simp
qed

text \<open>
  C3. When the game is not over and the new head stays inside the grid: a tick that does
  not eat returns with the length of the snake and the score unchanged; a tick that eats
  returns with both one larger, unless the search for the new food cell never returns.
\<close>

theorem tick_length_score:
  assumes "\<not> gameOver s" and "snake s \<noteq> []" and "in_grid W H (new_head s)"
  shows "(new_head s \<noteq> food s \<longrightarrow>
            (\<exists>s' g'. tick_update U (s, g) = Returns (s', g') \<and>
               length (snake s') = length (snake s) \<and> score s' = score s)) \<and>
         (new_head s = food s \<longrightarrow>
            (tick_update U (s, g) = Hangs \<and>
               random_empty_cell U W H (new_head s # snake s) g = None) \<or>
            (\<exists>s' g'. tick_update U (s, g) = Returns (s', g') \<and>
               length (snake s') = length (snake s) + 1 \<and> score s' = score s + 1))"
proof (intro conjI impI)
  assume "new_head s \<noteq> food s"
  with assms show "\<exists>s' g'. tick_update U (s, g) = Returns (s', g') \<and>
               length (snake s') = length (snake s) \<and> score s' = score s"
    by (simp add: tick_update_move)
next
  assume "new_head s = food s"
  with assms show "(tick_update U (s, g) = Hangs \<and>
               random_empty_cell U W H (new_head s # snake s) g = None) \<or>
            (\<exists>s' g'. tick_update U (s, g) = Returns (s', g') \<and>
               length (snake s') = length (snake s) + 1 \<and> score s' = score s + 1)"
    by (cases "random_empty_cell U W H (new_head s # snake s) g")
       (auto simp: tick_update_eat)
qed

theorem tick_length_score_witness:
  "\<not> gameOver (start_state (cell 0 0)) \<and> snake (start_state (cell 0 0)) \<noteq> [] \<and>
   in_grid W H (new_head (start_state (cell 0 0))) \<and>
   new_head (start_state (cell 0 0)) \<noteq> food (start_state (cell 0 0)) \<and>
   (\<exists>s' g'. tick_update (sweep_gen 30) (start_state (cell 0 0), 0) = Returns (s', g') \<and>
      length (snake s') = 2 \<and> score s' = 0) \<and>
   \<not> gameOver (start_state (cell 16 10)) \<and> snake (start_state (cell 16 10)) \<noteq> [] \<and>
   in_grid W H (new_head (start_state (cell 16 10))) \<and>
   new_head (start_state (cell 16 10)) = food (start_state (cell 16 10)) \<and>
   (\<exists>s' g'. tick_update (sweep_gen 30) (start_state (cell 16 10), 0) = Returns (s', g') \<and>
      length (snake s') = 3 \<and> score s' = 1)"
proof -
  let ?a = "start_state (cell 0 0)" and ?b = "start_state (cell 16 10)"
  have a: "\<not> gameOver ?a" "snake ?a \<noteq> []" "in_grid W H (new_head ?a)"
    "new_head ?a \<noteq> food ?a" "length (snake ?a) = 2" "score ?a = 0"
    by (simp_all add: run_simps)
  have b: "\<not> gameOver ?b" "snake ?b \<noteq> []" "in_grid W H (new_head ?b)"
    "new_head ?b = food ?b" "length (snake ?b) = 2" "score ?b = 0"
    by (simp_all add: run_simps)
  have nh: "tick_update (sweep_gen 30) (?b, 0) \<noteq> Hangs"
    by (simp add: tick_eating_state)
  from tick_length_score [OF a(1-3), of "sweep_gen 30" 0] a(4-6)
  have "\<exists>s' g'. tick_update (sweep_gen 30) (?a, 0) = Returns (s', g') \<and>
      length (snake s') = 2 \<and> score s' = 0"
    by simp
  moreover from tick_length_score [OF b(1-3), of "sweep_gen 30" 0] b(4-6) nh
  have "\<exists>s' g'. tick_update (sweep_gen 30) (?b, 0) = Returns (s', g') \<and>
      length (snake s') = 3 \<and> score s' = 1"
    by simp
  ultimately show ?thesis using a(1-4) b(1-4) by blast
qed

text \<open>
  C4. When the game is not over and the new head stays inside the grid, the tick ends with
  the game over exactly when the new head equals a cell of the final snake at index 1 or
  beyond; the new head itself is the cell at index 0. In particular, moving the head onto
  the cell at index 2 of a snake of at least four cells ends the game.
\<close>

theorem self_collision:
  assumes "\<not> gameOver s" and "in_grid W H (new_head s)"
    and "tick_update U (s, g) = Returns (s', g')"
  shows "(gameOver s' \<longleftrightarrow>
            (\<exists>i. 1 \<le> i \<and> i < length (snake s') \<and> snake s' ! i = new_head s)) \<and>
         snake s' ! 0 = new_head s \<and>
         (4 \<le> length (snake s) \<and> snake s ! 2 = new_head s \<longrightarrow> gameOver s')"
proof -
  from tick_update_body [OF assms]
  have body: "snake s' = new_head s # (if new_head s = food s then snake s else butlast (snake s))"
    and over: "gameOver s' \<longleftrightarrow> new_head s \<in> set (tl (snake s'))"
    by blast+
  have c1: "gameOver s' \<longleftrightarrow>
              (\<exists>i. 1 \<le> i \<and> i < length (snake s') \<and> snake s' ! i = new_head s)"
    unfolding over by (rule in_tl_iff)
  have c2: "snake s' ! 0 = new_head s"
    by (subst body) (rule nth_Cons_0)
  have c3: "4 \<le> length (snake s) \<and> snake s ! 2 = new_head s \<longrightarrow> gameOver s'"
  proof
    assume a: "4 \<le> length (snake s) \<and> snake s ! 2 = new_head s"
    then have "4 \<le> length (snake s)" by simp
    then have len: "2 < length (butlast (snake s))" by simp
    then have "butlast (snake s) ! 2 \<in> set (butlast (snake s))"
      by (rule nth_mem)
    moreover have "butlast (snake s) ! 2 = snake s ! 2"
      using len by (rule nth_butlast)
    ultimately have in_but: "new_head s \<in> set (butlast (snake s))"
      using a by simp
    then have "new_head s \<in> set (snake s)"
      by (rule in_set_butlastD)
    with in_but have "new_head s \<in> set (tl (snake s'))"
      by (subst body) auto
    then show "gameOver s'"
      by (simp add: over)
  qed
  from c1 c2 c3 show ?thesis by blast
qed

theorem self_collision_witness:
  "\<not> gameOver loop_state \<and> in_grid W H (new_head loop_state) \<and>
   tick_update (sweep_gen 30) (loop_state, 0) =
     Returns (loop_state\<lparr>snake := [cell 6 5, cell 5 5, cell 5 6, cell 6 5],
                gameOver := True\<rparr>, 0) \<and>
   4 \<le> length (snake loop_state) \<and> snake loop_state ! 2 = new_head loop_state \<and>
   gameOver (loop_state\<lparr>snake := [cell 6 5, cell 5 5, cell 5 6, cell 6 5], gameOver := True\<rparr>) \<and>
   (\<exists>i. 1 \<le> i \<and> i < length [cell 6 5, cell 5 5, cell 5 6, cell 6 5] \<and>
        [cell 6 5, cell 5 5, cell 5 6, cell 6 5] ! i = new_head loop_state)"
proof -
  let ?s' = "loop_state\<lparr>snake := [cell 6 5, cell 5 5, cell 5 6, cell 6 5], gameOver := True\<rparr>"
  have h: "\<not> gameOver loop_state" "in_grid W H (new_head loop_state)"
    "4 \<le> length (snake loop_state)" "snake loop_state ! 2 = new_head loop_state"
    by (simp_all add: loop_state_def run_simps)
  have t: "tick_update (sweep_gen 30) (loop_state, 0) = Returns (?s', 0)"
    by (simp add: loop_state_def run_simps)
  from self_collision [OF h(1,2) t] h(3,4)
  have "gameOver ?s' \<and>
        (\<exists>i. 1 \<le> i \<and> i < length (snake ?s') \<and> snake ?s' ! i = new_head loop_state)"
    by blast
  with h t show ?thesis by simp
qed

text \<open>
  C5. The cell the search returns is not on the snake it was given; so the food is off the
  snake after a reset and after an eating tick, and in every state the loop reaches.
\<close>

theorem food_never_on_snake:
  "(random_empty_cell U w h sn g = Some (p, g') \<longrightarrow> \<not> contains sn p) \<and>
   (reset_game U w h (s, g) = Returns (s', g') \<longrightarrow> \<not> contains (snake s') (food s')) \<and>
   (\<not> gameOver s \<and> in_grid W H (new_head s) \<and> new_head s = food s \<and>
      tick_update U (s, g) = Returns (s', g') \<longrightarrow> \<not> contains (snake s') (food s')) \<and>
   (reachable win32 U (s, g) \<longrightarrow> \<not> contains (snake s) (food s))"
proof (intro conjI impI)
  assume "random_empty_cell U w h sn g = Some (p, g')"
  then show "\<not> contains sn p" by (rule random_empty_cell_free)
next
  assume "reset_game U w h (s, g) = Returns (s', g')"
  then show "\<not> contains (snake s') (food s')"
    by (auto simp: reset_game_Returns_iff dest: random_empty_cell_free)
next
  assume a: "\<not> gameOver s \<and> in_grid W H (new_head s) \<and> new_head s = food s \<and>
      tick_update U (s, g) = Returns (s', g')"
  then have "snake s \<noteq> []"
    by (auto dest: tick_update_Returns_nonempty)
  with a obtain q where
    q: "random_empty_cell U W H (new_head s # snake s) g = Some (q, g')"
    and s': "snake s' = new_head s # snake s" "food s' = q"
    by (auto simp: tick_update_eat split: option.splits)
  from random_empty_cell_free [OF q] s' show "\<not> contains (snake s') (food s')" by simp
next
  assume "reachable win32 U (s, g)"
  from reachable_food_free [OF this] show "\<not> contains (snake s) (food s)" by simp
qed

theorem food_never_on_snake_witness:
  "random_empty_cell (sweep_gen 30) 30 20 [cell 0 0, cell 1 0] 0 = Some (cell 2 0, 6) \<and>
   \<not> contains [cell 0 0, cell 1 0] (cell 2 0) \<and>
   reset_game (sweep_gen 30) W H (main_init, 0) = Returns (start_state (cell 0 0), 2) \<and>
   \<not> contains (snake (start_state (cell 0 0))) (food (start_state (cell 0 0))) \<and>
   \<not> gameOver (start_state (cell 16 10)) \<and>
   in_grid W H (new_head (start_state (cell 16 10))) \<and>
   new_head (start_state (cell 16 10)) = food (start_state (cell 16 10)) \<and>
   tick_update (sweep_gen 30) (start_state (cell 16 10), 0) =
     Returns ((start_state (cell 16 10))\<lparr>snake := [cell 16 10, cell 15 10, cell 14 10],
                score := 1, food := cell 0 0\<rparr>, 2) \<and>
   \<not> contains [cell 16 10, cell 15 10, cell 14 10] (cell 0 0) \<and>
   reachable False (sweep_gen 30) (start_state (cell 0 0), 2)"
proof -
  let ?b = "start_state (cell 16 10)"
  let ?b' = "?b\<lparr>snake := [cell 16 10, cell 15 10, cell 14 10], score := 1, food := cell 0 0\<rparr>"
  have b: "\<not> gameOver ?b" "in_grid W H (new_head ?b)" "new_head ?b = food ?b"
    by (simp_all add: run_simps)
  have re: "reachable False (sweep_gen 30) (start_state (cell 0 0), 2)"
    using reset_main_init by (rule reachable.start)
  from food_never_on_snake [of "sweep_gen 30" 30 20 "[cell 0 0, cell 1 0]" 0 "cell 2 0" 6]
    sweep_search_third
  have c1: "\<not> contains [cell 0 0, cell 1 0] (cell 2 0)"
    by blast
  from food_never_on_snake [of "sweep_gen 30" W H _ 0 _ 2 main_init "start_state (cell 0 0)"]
    reset_main_init
  have c2: "\<not> contains (snake (start_state (cell 0 0))) (food (start_state (cell 0 0)))"
    by blast
  from food_never_on_snake [of "sweep_gen 30" _ _ _ 0 _ 2 ?b ?b'] b tick_eating_state
  have "\<not> contains (snake ?b') (food ?b')"
    by blast
  then have c3: "\<not> contains [cell 16 10, cell 15 10, cell 14 10] (cell 0 0)"
    by simp
  from food_never_on_snake [of "sweep_gen 30" _ _ _ 2 _ _ "start_state (cell 0 0)" _ False] re
  have c4: "\<not> contains (snake (start_state (cell 0 0))) (food (start_state (cell 0 0)))"
    by blast
  from sweep_search_third c1 reset_main_init c2 b tick_eating_state c3 re
  show ?thesis by blast
qed

text \<open>
  C6. When the game is over, a tick changes nothing; and through any sequence of loop
  iterations whose keys do not restart the game, the loop either quits or is still in the
  same state, the pending direction apart.
\<close>

theorem game_over_freezes:
  assumes "gameOver s"
  shows "tick_update U (s, g) = Returns (s, g) \<and>
         ((\<forall>inp\<in>set inps. no_restart inp) \<longrightarrow>
            run_loop win32 U inps (s, g) = Returns Break \<or>
            (\<exists>p. run_loop win32 U inps (s, g) = Returns (Continue (s\<lparr>pending := p\<rparr>, g))))"
  using assms by (simp add: tick_update_gameOver run_loop_frozen)

theorem game_over_freezes_witness:
  "gameOver (wall_state\<lparr>gameOver := True\<rparr>) \<and>
   no_restart None \<and> no_restart (Some (of_char CHR ''w'', 0)) \<and>
   tick_update (sweep_gen 30) (wall_state\<lparr>gameOver := True\<rparr>, 0) =
     Returns (wall_state\<lparr>gameOver := True\<rparr>, 0) \<and>
   run_loop False (sweep_gen 30) [None, Some (of_char CHR ''w'', 0)]
       (wall_state\<lparr>gameOver := True\<rparr>, 0) =
     Returns (Continue (wall_state\<lparr>gameOver := True, pending := Up\<rparr>, 0)) \<and>
   (run_loop False (sweep_gen 30) [None, Some (of_char CHR ''w'', 0)]
       (wall_state\<lparr>gameOver := True\<rparr>, 0) = Returns Break \<or>
    (\<exists>p. run_loop False (sweep_gen 30) [None, Some (of_char CHR ''w'', 0)]
            (wall_state\<lparr>gameOver := True\<rparr>, 0) =
          Returns (Continue (wall_state\<lparr>gameOver := True, pending := p\<rparr>, 0))))"
proof -
  let ?s = "wall_state\<lparr>gameOver := True\<rparr>"
  let ?inps = "[None, Some (of_char CHR ''w'', 0::int)]"
  have h: "gameOver ?s" by simp
  have n: "no_restart None" "no_restart (Some (of_char CHR ''w'', 0))"
    by (simp_all add: no_restart_def restart_key_def)
  then have n': "\<forall>inp\<in>set ?inps. no_restart inp" by simp
  have r: "run_loop False (sweep_gen 30) ?inps (?s, 0) =
             Returns (Continue (?s\<lparr>pending := Up\<rparr>, 0))"
    by (simp add: loop_body_def tick_update_def quit_key_def restart_key_def wasd_keys_def
        wall_state_def)
  from game_over_freezes [OF h, of "sweep_gen 30" 0 ?inps False] n n' r h
  show ?thesis by simp
qed

text \<open>
  C7. On a grid with at least one column and one row, a reset that returns leaves the two
  cells \<open>(w/2, h/2)\<close> and \<open>(w/2 - 1, h/2)\<close>, both directions \<open>Right\<close>, score 0, the
  game not over and the food on a cell of the grid that is off the snake; a second reset
  gives the same state but for the food, which again is a free cell of the grid. With a
  random source that keeps drawing every cell, and a cell left free by the two-cell snake,
  both resets return.
\<close>

theorem reset_game_spec:
  assumes "uniform_ok U" and "0 < w" and "0 < h"
  shows "(fair U w h g \<and>
          (\<exists>c. in_grid w h c \<and>
               \<not> contains [cell (w div 2) (h div 2), cell (w div 2 - 1) (h div 2)] c) \<longrightarrow>
            (\<exists>s' g' s'' g''. reset_game U w h (s, g) = Returns (s', g') \<and>
               reset_game U w h (s', g') = Returns (s'', g''))) \<and>
         (\<forall>s' g'. reset_game U w h (s, g) = Returns (s', g') \<longrightarrow>
            snake s' = [cell (w div 2) (h div 2), cell (w div 2 - 1) (h div 2)] \<and>
            dir s' = Right \<and> pending s' = Right \<and> score s' = 0 \<and> \<not> gameOver s' \<and>
            in_grid w h (food s') \<and> \<not> contains (snake s') (food s') \<and>
            (\<forall>s'' g''. reset_game U w h (s', g') = Returns (s'', g'') \<longrightarrow>
               s'' = s'\<lparr>food := food s''\<rparr> \<and>
               in_grid w h (food s'') \<and> \<not> contains (snake s'') (food s'')))"
proof (intro conjI impI allI)
  assume a: "fair U w h g \<and>
          (\<exists>c. in_grid w h c \<and>
               \<not> contains [cell (w div 2) (h div 2), cell (w div 2 - 1) (h div 2)] c)"
  then obtain c where c: "in_grid w h c" "\<not> contains (start_snake w h) c"
    by (auto simp: start_snake_pos [OF assms(2,3)])
  from a have f: "fair U w h g" by simp
  from random_empty_cell_least [OF fair_finds_free [OF f c]]
  obtain p g' where r1: "random_empty_cell U w h (start_snake w h) g = Some (p, g')"
    by (metis surj_pair)
  from f r1 have "fair U w h g'" by (rule fair_after_search)
  from random_empty_cell_least [OF fair_finds_free [OF this c]]
  obtain q g'' where r2: "random_empty_cell U w h (start_snake w h) g' = Some (q, g'')"
    by (metis surj_pair)
  from r1 r2 show "\<exists>s' g' s'' g''. reset_game U w h (s, g) = Returns (s', g') \<and>
               reset_game U w h (s', g') = Returns (s'', g'')"
    unfolding reset_game_Returns_iff by blast
next
  fix s' g'
  assume r: "reset_game U w h (s, g) = Returns (s', g')"
  note f1 = reset_game_fields [OF assms r]
  from f1 have e: "s' = s\<lparr>snake := [cell (w div 2) (h div 2), cell (w div 2 - 1) (h div 2)],
                dir := Right, pending := Right, score := 0, gameOver := False,
                food := food s'\<rparr>" by blast
  show "snake s' = [cell (w div 2) (h div 2), cell (w div 2 - 1) (h div 2)]"
    by (subst e) simp
  show "dir s' = Right" by (subst e) simp
  show "pending s' = Right" by (subst e) simp
  show "score s' = 0" by (subst e) simp
  show "\<not> gameOver s'" by (subst e) simp
  show "in_grid w h (food s')" using f1 by blast
  show "\<not> contains (snake s') (food s')" using f1 by blast
  fix s'' g''
  assume r2: "reset_game U w h (s', g') = Returns (s'', g'')"
  note f2 = reset_game_fields [OF assms r2]
  from f2 have "s'' = s'\<lparr>snake := [cell (w div 2) (h div 2), cell (w div 2 - 1) (h div 2)],
                dir := Right, pending := Right, score := 0, gameOver := False,
                food := food s''\<rparr>" by blast
  also have "\<dots> = s'\<lparr>food := food s''\<rparr>"
    by (subst (1 2) e) simp
  finally show "s'' = s'\<lparr>food := food s''\<rparr>" .
  show "in_grid w h (food s'')" using f2 by blast
  show "\<not> contains (snake s'') (food s'')" using f2 by blast
qed

theorem reset_game_spec_witness:
  "uniform_ok (sweep_gen 30) \<and> (0::int) < 30 \<and> (0::int) < 20 \<and>
   fair (sweep_gen 30) 30 20 0 \<and>
   in_grid 30 20 (cell 0 0) \<and> \<not> contains [cell (30 div 2) (20 div 2), cell (30 div 2 - 1) (20 div 2)] (cell 0 0) \<and>
   reset_game (sweep_gen 30) 30 20 (main_init, 0) = Returns (start_state (cell 0 0), 2) \<and>
   reset_game (sweep_gen 30) 30 20 (start_state (cell 0 0), 2) =
     Returns (start_state (cell 1 0), 4) \<and>
   snake (start_state (cell 0 0)) = [cell 15 10, cell 14 10] \<and>
   start_state (cell 1 0) = (start_state (cell 0 0))\<lparr>food := cell 1 0\<rparr> \<and>
   (\<exists>s' g' s'' g''.
      reset_game (sweep_gen 30) 30 20 (main_init, 0) = Returns (s', g') \<and>
      reset_game (sweep_gen 30) 30 20 (s', g') = Returns (s'', g''))"
proof -
  have h: "(0::int) < 30" "(0::int) < 20" by simp_all
  have c: "in_grid 30 20 (cell 0 0)"
    "\<not> contains [cell (30 div 2) (20 div 2), cell (30 div 2 - 1) (20 div 2)] (cell 0 0)"
    by (simp_all add: in_grid_def)
  have r1: "reset_game (sweep_gen 30) 30 20 (main_init, 0) = Returns (start_state (cell 0 0), 2)"
    using reset_main_init by (simp add: W_def H_def)
  have r2: "reset_game (sweep_gen 30) 30 20 (start_state (cell 0 0), 2) =
     Returns (start_state (cell 1 0), 4)"
    using reset_again by (simp add: W_def H_def)
  note spec =
    reset_game_spec [OF sweep_gen_uniform_ok [of 30] h, where g = 0 and s = main_init]
  from spec sweep_gen_fair c
  have ex: "\<exists>s' g' s'' g''.
      reset_game (sweep_gen 30) 30 20 (main_init, 0) = Returns (s', g') \<and>
      reset_game (sweep_gen 30) 30 20 (s', g') = Returns (s'', g'')"
    by blast
  from spec r1 r2
  have "snake (start_state (cell 0 0)) = [cell (30 div 2) (20 div 2), cell (30 div 2 - 1) (20 div 2)] \<and>
        start_state (cell 1 0) = (start_state (cell 0 0))\<lparr>food := food (start_state (cell 1 0))\<rparr>"
    by blast
  then have "snake (start_state (cell 0 0)) = [cell 15 10, cell 14 10] \<and>
        start_state (cell 1 0) = (start_state (cell 0 0))\<lparr>food := cell 1 0\<rparr>"
    by (simp add: start_state_def)
  with sweep_gen_uniform_ok [of 30] h sweep_gen_fair c r1 r2 ex show ?thesis
    by blast
qed

text \<open>
  C8, with the snake after the tick corrected to two cells. With \<open>W = 30\<close> and
  \<open>H = 20\<close> the state after a reset has the snake \<open>[(15,10), (14,10)]\<close>, direction
  \<open>Right\<close> and score 0. One tick later, with no key pressed and the food not at
  \<open>(16,10)\<close>, the snake is \<open>[(16,10), (15,10)]\<close> and nothing else has changed; in any
  case the head is then at \<open>(16,10)\<close>, and the score differs only if the food was there.
\<close>

theorem first_tick_scenario:
  assumes "reset_game U W H (s0, g0) = Returns (s1, g1)"
  shows "snake s1 = [cell 15 10, cell 14 10] \<and> dir s1 = Right \<and> score s1 = 0 \<and>
         (food s1 \<noteq> cell 16 10 \<longrightarrow>
            tick_update U (s1, g1) =
              Returns (s1\<lparr>snake := [cell 16 10, cell 15 10]\<rparr>, g1)) \<and>
         (\<forall>s2 g2. tick_update U (s1, g1) = Returns (s2, g2) \<longrightarrow>
            snake s2 ! 0 = cell 16 10 \<and> (score s2 \<noteq> score s1 \<longrightarrow> food s1 = cell 16 10))"
proof -
  note e = reset_at_W_H [OF assms]
  have sn: "snake s1 = [cell 15 10, cell 14 10]" by (subst e) simp
  have d: "dir s1 = Right" by (subst e) simp
  have p: "pending s1 = Right" by (subst e) simp
  have sc: "score s1 = 0" by (subst e) simp
  have go: "\<not> gameOver s1" by (subst e) simp
  have ne: "snake s1 \<noteq> []" using sn by simp
  have co: "committed s1 = Right" using d p by (simp add: committed_def is_opposite_def)
  have nh: "new_head s1 = cell 16 10" using sn co by (simp add: new_head_def)
  have ig: "in_grid W H (new_head s1)" using nh by (simp add: in_grid_def W_def H_def)
  have mv: "food s1 \<noteq> cell 16 10 \<longrightarrow>
            tick_update U (s1, g1) = Returns (s1\<lparr>snake := [cell 16 10, cell 15 10]\<rparr>, g1)"
  proof
    assume "food s1 \<noteq> cell 16 10"
    then have "new_head s1 \<noteq> food s1" using nh by simp
    from tick_update_move [OF go ne ig this, of U g1]
    have "tick_update U (s1, g1) =
            Returns (s1\<lparr>dir := dir s1, snake := [cell 16 10, cell 15 10],
                       gameOver := gameOver s1\<rparr>, g1)"
      using sn co nh go d by simp
    then show "tick_update U (s1, g1) = Returns (s1\<lparr>snake := [cell 16 10, cell 15 10]\<rparr>, g1)"
      by simp
  qed
  have af: "\<forall>s2 g2. tick_update U (s1, g1) = Returns (s2, g2) \<longrightarrow>
            snake s2 ! 0 = cell 16 10 \<and> (score s2 \<noteq> score s1 \<longrightarrow> food s1 = cell 16 10)"
  proof (intro allI impI)
    fix s2 g2
    assume t: "tick_update U (s1, g1) = Returns (s2, g2)"
    from tick_update_body [OF go ig t] nh have "snake s2 ! 0 = cell 16 10"
      by simp
    moreover have "score s2 \<noteq> score s1 \<longrightarrow> food s1 = cell 16 10"
      using mv t by auto
    ultimately show "snake s2 ! 0 = cell 16 10 \<and> (score s2 \<noteq> score s1 \<longrightarrow> food s1 = cell 16 10)"
      by blast
  qed
  from sn d sc mv af show ?thesis by blast
qed

theorem first_tick_scenario_witness:
  "reset_game (sweep_gen 30) W H (main_init, 0) = Returns (start_state (cell 0 0), 2) \<and>
   food (start_state (cell 0 0)) \<noteq> cell 16 10 \<and>
   tick_update (sweep_gen 30) (start_state (cell 0 0), 2) =
     Returns ((start_state (cell 0 0))\<lparr>snake := [cell 16 10, cell 15 10]\<rparr>, 2) \<and>
   snake ((start_state (cell 0 0))\<lparr>snake := [cell 16 10, cell 15 10]\<rparr>) ! 0 = cell 16 10"
proof -
  have f: "food (start_state (cell 0 0)) \<noteq> cell 16 10"
    by (simp add: start_state_def)
  from first_tick_scenario [OF reset_main_init] f
  have "tick_update (sweep_gen 30) (start_state (cell 0 0), 2) =
     Returns ((start_state (cell 0 0))\<lparr>snake := [cell 16 10, cell 15 10]\<rparr>, 2)"
    by blast
  with reset_main_init f show ?thesis by simp
qed

theorem first_tick_counterexample:
  "reset_game (sweep_gen 30) W H (main_init, 0) = Returns (start_state (cell 0 0), 2) \<and>
   pending (start_state (cell 0 0)) = dir (start_state (cell 0 0)) \<and>
   food (start_state (cell 0 0)) \<noteq> cell 16 10 \<and>
   tick_update (sweep_gen 30) (start_state (cell 0 0), 2) =
     Returns ((start_state (cell 0 0))\<lparr>snake := [cell 16 10, cell 15 10]\<rparr>, 2) \<and>
   snake ((start_state (cell 0 0))\<lparr>snake := [cell 16 10, cell 15 10]\<rparr>) \<noteq> [cell 16 10]"
  using reset_main_init tick_start_state by (simp add: start_state_def)

text \<open>
  C9. With a distribution that keeps to its range, every draw of the search lies in the
  grid, and the search fails to return exactly when every cell it draws is on the snake:
  there is no cap and no fallback. If the snake leaves a cell of the grid free and the
  source keeps drawing every cell, the search returns the first drawn cell that is off
  the snake. If the snake covers the grid, the search never returns.
\<close>

theorem rejection_sampling:
  assumes "uniform_ok U" and "0 < w" and "0 < h"
  shows "(\<forall>n. in_grid w h (fst (nth_draw U w h g n))) \<and>
         (random_empty_cell U w h sn g = None \<longleftrightarrow>
            (\<forall>n. contains sn (fst (nth_draw U w h g n)))) \<and>
         (fair U w h g \<and> \<not> covers_grid w h sn \<longrightarrow>
            (\<exists>n. random_empty_cell U w h sn g = Some (nth_draw U w h g n) \<and>
                 \<not> contains sn (fst (nth_draw U w h g n)) \<and>
                 (\<forall>m<n. contains sn (fst (nth_draw U w h g m))))) \<and>
         (covers_grid w h sn \<longrightarrow> random_empty_cell U w h sn g = None)"
proof (intro conjI impI allI)
  fix n show "in_grid w h (fst (nth_draw U w h g n))"
    using assms by (rule nth_draw_in_grid)
next
  show "random_empty_cell U w h sn g = None \<longleftrightarrow>
          (\<forall>n. contains sn (fst (nth_draw U w h g n)))"
    by (rule random_empty_cell_None_iff)
next
  assume "fair U w h g \<and> \<not> covers_grid w h sn"
  then have "\<exists>n. \<not> contains sn (fst (nth_draw U w h g n))"
    by (auto simp: covers_grid_def dest: fair_finds_free)
  then show "\<exists>n. random_empty_cell U w h sn g = Some (nth_draw U w h g n) \<and>
                 \<not> contains sn (fst (nth_draw U w h g n)) \<and>
                 (\<forall>m<n. contains sn (fst (nth_draw U w h g m)))"
    by (rule random_empty_cell_least)
next
  assume "covers_grid w h sn"
  then have "\<forall>n. contains sn (fst (nth_draw U w h g n))"
    using nth_draw_in_grid [OF assms] by (simp add: covers_grid_def)
  then show "random_empty_cell U w h sn g = None"
    by (simp add: random_empty_cell_None_iff)
qed

theorem rejection_sampling_witness:
  "uniform_ok (sweep_gen 30) \<and> (0::int) < 30 \<and> (0::int) < 20 \<and>
   fair (sweep_gen 30) 30 20 0 \<and> \<not> covers_grid 30 20 [cell 0 0, cell 1 0] \<and>
   (\<exists>n. random_empty_cell (sweep_gen 30) 30 20 [cell 0 0, cell 1 0] 0 =
           Some (nth_draw (sweep_gen 30) 30 20 0 n) \<and>
        \<not> contains [cell 0 0, cell 1 0] (fst (nth_draw (sweep_gen 30) 30 20 0 n)) \<and>
        (\<forall>m<n. contains [cell 0 0, cell 1 0] (fst (nth_draw (sweep_gen 30) 30 20 0 m)))) \<and>
   random_empty_cell (sweep_gen 30) 30 20 [cell 0 0, cell 1 0] 0 = Some (cell 2 0, 6) \<and>
   uniform_ok (sweep_gen 2) \<and> (0::int) < 2 \<and> (0::int) < 1 \<and>
   covers_grid 2 1 [cell 0 0, cell 1 0] \<and>
   random_empty_cell (sweep_gen 2) 2 1 [cell 0 0, cell 1 0] 0 = None"
proof -
  have h: "(0::int) < 30" "(0::int) < 20" and h': "(0::int) < 2" "(0::int) < 1"
    by simp_all
  from rejection_sampling
    [OF sweep_gen_uniform_ok [of 30] h, where g = 0 and sn = "[cell 0 0, cell 1 0]"]
    sweep_gen_fair free_30_20
  have a: "\<exists>n. random_empty_cell (sweep_gen 30) 30 20 [cell 0 0, cell 1 0] 0 =
           Some (nth_draw (sweep_gen 30) 30 20 0 n) \<and>
        \<not> contains [cell 0 0, cell 1 0] (fst (nth_draw (sweep_gen 30) 30 20 0 n)) \<and>
        (\<forall>m<n. contains [cell 0 0, cell 1 0] (fst (nth_draw (sweep_gen 30) 30 20 0 m)))"
    by blast
  from rejection_sampling
    [OF sweep_gen_uniform_ok [of 2] h', where g = 0 and sn = "[cell 0 0, cell 1 0]"] full_2_1
  have b: "random_empty_cell (sweep_gen 2) 2 1 [cell 0 0, cell 1 0] 0 = None"
    by blast
  from sweep_gen_uniform_ok [of 30] sweep_gen_uniform_ok [of 2] h h' sweep_gen_fair free_30_20 a
    sweep_search_third full_2_1 b
  show ?thesis by blast
qed

text \<open>
  C10. When the game is not over, the food is off the snake and the new head is the food
  cell inside the grid, the tick does exactly this: it hangs if the search for the next
  food cell does, and otherwise returns the grown snake with the game not over.
\<close>

theorem eating_never_collides:
  assumes "\<not> gameOver s" and "snake s \<noteq> []" and "\<not> contains (snake s) (food s)"
    and "in_grid W H (new_head s)" and "new_head s = food s"
  shows "tick_update U (s, g) =
           (case random_empty_cell U W H (new_head s # snake s) g of
              None \<Rightarrow> Hangs
            | Some (p, g') \<Rightarrow>
                Returns (s\<lparr>dir := committed s, snake := new_head s # snake s,
                           score := score s + 1, food := p, gameOver := False\<rparr>, g'))"
  using assms by (simp add: tick_update_eat contains_iff split: option.splits)

theorem eating_never_collides_witness:
  "\<not> gameOver (start_state (cell 16 10)) \<and> snake (start_state (cell 16 10)) \<noteq> [] \<and>
   \<not> contains (snake (start_state (cell 16 10))) (food (start_state (cell 16 10))) \<and>
   in_grid W H (new_head (start_state (cell 16 10))) \<and>
   new_head (start_state (cell 16 10)) = food (start_state (cell 16 10)) \<and>
   tick_update (sweep_gen 30) (start_state (cell 16 10), 0) =
     Returns ((start_state (cell 16 10))\<lparr>snake := [cell 16 10, cell 15 10, cell 14 10],
                score := 1, food := cell 0 0, gameOver := False\<rparr>, 2)"
proof -
  let ?b = "start_state (cell 16 10)"
  have b: "\<not> gameOver ?b" "snake ?b \<noteq> []" "\<not> contains (snake ?b) (food ?b)"
    "in_grid W H (new_head ?b)" "new_head ?b = food ?b"
    by (simp_all add: run_simps)
  have r: "random_empty_cell (sweep_gen 30) W H (new_head ?b # snake ?b) 0 = Some (cell 0 0, 2)"
    by (simp add: run_simps sweep_first_free)
  from eating_never_collides [OF b, of "sweep_gen 30" 0]
  have "tick_update (sweep_gen 30) (?b, 0) =
          Returns (?b\<lparr>dir := committed ?b, snake := new_head ?b # snake ?b,
                       score := score ?b + 1, food := cell 0 0, gameOver := False\<rparr>, 2)"
    by (simp only: r option.case prod.case)
  then have "tick_update (sweep_gen 30) (?b, 0) =
     Returns (?b\<lparr>snake := [cell 16 10, cell 15 10, cell 14 10],
                score := 1, food := cell 0 0, gameOver := False\<rparr>, 2)"
    by (simp add: run_simps)
  with b show ?thesis by blast
qed

end
